theory Spec2Isabelle
  imports Main
begin

section \<open>Exceptions and results\<close>

text \<open>
  The Python exceptions that the modelled code can raise. A computation that may raise
  returns \<open>error + 'a\<close>: \<open>Inl e\<close> is the raised exception, \<open>Inr v\<close> the returned value.
\<close>

datatype error = TypeError | ValueError | OverflowError | OSError

section \<open>The clock and \<open>datetime.utcnow\<close>\<close>

text \<open>
  The wall clock of the process, as the operating system reports it: whole seconds since
  1970-01-01T00:00:00Z (POSIX time, which has no leap seconds) and the microseconds within
  the second. The clock of a POSIX system is never before the epoch, hence \<open>nat\<close>.
\<close>

record timeval =
  tv_sec :: nat
  tv_usec :: nat

text \<open>A naive \<open>datetime\<close> object: the fields of Python's \<open>datetime.datetime\<close>.\<close>

record datetime =
  year :: nat
  month :: nat
  day :: nat
  hour :: nat
  minute :: nat
  second :: nat
  microsecond :: nat

definition MINYEAR :: nat where "MINYEAR = 1"
definition MAXYEAR :: nat where "MAXYEAR = 9999"

text \<open>
  The proleptic Gregorian calendar of Python's \<open>datetime\<close> module
  (\<open>_is_leap\<close>, \<open>_days_before_year\<close>, \<open>_days_in_month\<close>, \<open>_days_before_month\<close>,
  \<open>_ymd2ord\<close>, \<open>_ord2ymd\<close>), with 0001-01-01 as day 1.
\<close>

definition is_leap :: "nat \<Rightarrow> bool" where
  "is_leap y = (y mod 4 = 0 \<and> (y mod 100 \<noteq> 0 \<or> y mod 400 = 0))"

definition days_before_year :: "nat \<Rightarrow> nat" where
  "days_before_year y = (y - 1) * 365 + (y - 1) div 4 - (y - 1) div 100 + (y - 1) div 400"

definition DAYS_IN_MONTH :: "nat list" where
  "DAYS_IN_MONTH = [0, 31, 28, 31, 30, 31, 30, 31, 31, 30, 31, 30, 31]"

definition DAYS_BEFORE_MONTH :: "nat list" where
  "DAYS_BEFORE_MONTH = [0, 0, 31, 59, 90, 120, 151, 181, 212, 243, 273, 304, 334]"

definition days_in_month :: "nat \<Rightarrow> nat \<Rightarrow> nat" where
  "days_in_month y m = (if m = 2 \<and> is_leap y then 29 else DAYS_IN_MONTH ! m)"

definition days_before_month :: "nat \<Rightarrow> nat \<Rightarrow> nat" where
  "days_before_month y m = DAYS_BEFORE_MONTH ! m + (if m > 2 \<and> is_leap y then 1 else 0)"

definition ymd2ord :: "nat \<Rightarrow> nat \<Rightarrow> nat \<Rightarrow> nat" where
  "ymd2ord y m d = days_before_year y + days_before_month y m + d"

definition DI400Y :: nat where "DI400Y = 146097"
definition DI100Y :: nat where "DI100Y = 36524"
definition DI4Y :: nat where "DI4Y = 1461"

definition ord2ymd :: "nat \<Rightarrow> nat \<times> nat \<times> nat" where
  "ord2ymd n0 =
    (let n = n0 - 1;
         n400 = n div DI400Y; n = n mod DI400Y;
         y = n400 * 400 + 1;
         n100 = n div DI100Y; n = n mod DI100Y;
         n4 = n div DI4Y; n = n mod DI4Y;
         n1 = n div 365; n = n mod 365;
         y = y + n100 * 100 + n4 * 4 + n1
     in if n1 = 4 \<or> n100 = 4 then (y - 1, 12, 31)
        else
          let leapyear = (n1 = 3 \<and> (n4 \<noteq> 24 \<or> n100 = 3));
              m = (n + 50) div 32;
              preceding = DAYS_BEFORE_MONTH ! m + (if m > 2 \<and> leapyear then 1 else 0)
          in if preceding > n
             then (y, m - 1,
                   n - (preceding - (DAYS_IN_MONTH ! (m - 1)
                                     + (if m - 1 = 2 \<and> leapyear then 1 else 0))) + 1)
             else (y, m, n - preceding + 1))"

text \<open>
  \<open>time.gmtime\<close>: the broken-down UTC time of a POSIX time. Day 719163 of the calendar
  is 1970-01-01.
\<close>

definition EPOCH_ORDINAL :: nat where "EPOCH_ORDINAL = 719163"

definition gmtime :: "nat \<Rightarrow> nat \<times> nat \<times> nat \<times> nat \<times> nat \<times> nat" where
  "gmtime t =
    (let (y, m, d) = ord2ymd (EPOCH_ORDINAL + t div 86400);
         s = t mod 86400
     in (y, m, d, s div 3600, s mod 3600 div 60, s mod 60))"

text \<open>
  \<open>datetime.utcnow()\<close> reads the clock and builds the naive datetime of that instant in
  UTC; the local time zone plays no part. A clock beyond what the platform's \<open>time_t\<close>
  and \<open>gmtime\<close> can take, or beyond year \<open>MAXYEAR\<close>, raises.
\<close>

definition utcnow :: "timeval \<Rightarrow> error + datetime" where
  "utcnow tv =
    (if tv_sec tv \<ge> 2 ^ 63 then Inl OverflowError
     else if tv_sec tv \<ge> 67768036191676800 then Inl OSError
     else
       let (y, m, d, hh, mm, ss) = gmtime (tv_sec tv)
       in if y < MINYEAR \<or> y > MAXYEAR then Inl ValueError
          else Inr \<lparr>year = y, month = m, day = d, hour = hh, minute = mm,
                    second = min ss 59, microsecond = tv_usec tv\<rparr>)"

section \<open>\<open>strftime\<close>\<close>

text \<open>Decimal digits and the decimal numeral of a natural number.\<close>

definition digit_char :: "nat \<Rightarrow> char" where
  "digit_char d = ''0123456789abcdef'' ! d"

fun dec :: "nat \<Rightarrow> string" where
  "dec n = (if n < 10 then [digit_char n] else dec (n div 10) @ [digit_char (n mod 10)])"

declare dec.simps [simp del]

definition is_digit :: "char \<Rightarrow> bool" where
  "is_digit c = (c \<in> set ''0123456789'')"

definition digit_val :: "char \<Rightarrow> nat" where
  "digit_val c = of_char c - 48"

definition digits_val :: "string \<Rightarrow> nat" where
  "digits_val s = foldl (\<lambda>a c. 10 * a + digit_val c) 0 s"

text \<open>The C library's \<open>%02d\<close>: at least two digits, padded with a zero.\<close>

definition zfill2 :: "nat \<Rightarrow> string" where
  "zfill2 n = (if n < 10 then CHR ''0'' # dec n else dec n)"

text \<open>The abbreviated month names of the C locale, which a Python process has for
  \<open>LC_TIME\<close> unless it calls \<open>setlocale\<close>; this program never does.\<close>

definition MONTH_ABBR :: "string list" where
  "MONTH_ABBR = ['''', ''Jan'', ''Feb'', ''Mar'', ''Apr'', ''May'', ''Jun'',
                 ''Jul'', ''Aug'', ''Sep'', ''Oct'', ''Nov'', ''Dec'']"

text \<open>
  One conversion of \<open>strftime\<close>. \<open>%Y\<close> is the year as a plain decimal number, which is how
  the C library prints it; a conversion the C library does not know is copied as it is.
\<close>

definition strftime_conv :: "datetime \<Rightarrow> char \<Rightarrow> string" where
  "strftime_conv dt c =
    (if c = CHR ''d'' then zfill2 (day dt)
     else if c = CHR ''b'' then MONTH_ABBR ! month dt
     else if c = CHR ''Y'' then dec (year dt)
     else if c = CHR ''H'' then zfill2 (hour dt)
     else if c = CHR ''M'' then zfill2 (minute dt)
     else if c = CHR ''S'' then zfill2 (second dt)
     else if c = CHR ''m'' then zfill2 (month dt)
     else if c = CHR ''%'' then ''%''
     else [CHR ''%'', c])"

fun strftime :: "datetime \<Rightarrow> string \<Rightarrow> string" where
  "strftime dt [] = []"
| "strftime dt (c # fmt) =
    (if c = CHR ''%'' then
       (case fmt of
          [] \<Rightarrow> ''%''
        | d # fmt' \<Rightarrow> strftime_conv dt d @ strftime dt fmt')
     else c # strftime dt fmt)"

section \<open>The \<open>%\<close> operator on strings\<close>

datatype pyobject = PyStr string | PyInt int | PyObject string string

record conv_spec =
  f_ljust :: bool
  f_sign :: bool
  f_blank :: bool
  f_alt :: bool
  f_zero :: bool
  width :: "nat option"
  prec :: "nat option"
  conv :: char

type_synonym extern = "conv_spec \<Rightarrow> int \<Rightarrow> error + string"

definition PY_SSIZE_T_MAX :: int where "PY_SSIZE_T_MAX = 2 ^ 63 - 1"
definition INT_MAX :: int where "INT_MAX = 2 ^ 31 - 1"

fun to_base :: "nat \<Rightarrow> nat \<Rightarrow> string" where
  "to_base b n =
     (if n < b \<or> b < 2 then [digit_char n] else to_base b (n div b) @ [digit_char (n mod b)])"

declare to_base.simps [simp del]

definition int_str :: "int \<Rightarrow> string" where
  "int_str n = (if n < 0 then CHR ''-'' # dec (nat (- n)) else dec (nat n))"

definition hex_escape :: "char \<Rightarrow> string" where
  "hex_escape c =
     [CHR 0x5C, CHR ''x'', digit_char (of_char c div 16), digit_char (of_char c mod 16)]"

definition is_printable :: "char \<Rightarrow> bool" where
  "is_printable c =
     (let n = (of_char c :: nat)
      in (32 \<le> n \<and> n < 127) \<or> (161 \<le> n \<and> n \<noteq> 173))"

definition repr_char :: "char \<Rightarrow> bool \<Rightarrow> char \<Rightarrow> string" where
  "repr_char quote ascii_only c =
     (if c = quote \<or> c = CHR 0x5C then [CHR 0x5C, c]
      else if c = CHR 0x09 then [CHR 0x5C, CHR ''t'']
      else if c = CHR 0x0A then [CHR 0x5C, CHR ''n'']
      else if c = CHR 0x0D then [CHR 0x5C, CHR ''r'']
      else if (of_char c :: nat) < 32 \<or> (of_char c :: nat) = 127 then hex_escape c
      else if (of_char c :: nat) < 127 then [c]
      else if ascii_only \<or> \<not> is_printable c then hex_escape c
      else [c])"

definition str_repr :: "bool \<Rightarrow> string \<Rightarrow> string" where
  "str_repr ascii_only s =
     (let quote = (if CHR 0x27 \<in> set s \<and> CHR 0x22 \<notin> set s then CHR 0x22 else CHR 0x27)
      in quote # concat (map (repr_char quote ascii_only) s) @ [quote])"

definition ascii_escape :: "string \<Rightarrow> string" where
  "ascii_escape s = concat (map (\<lambda>c. if (of_char c :: nat) < 128 then [c] else hex_escape c) s)"

fun py_str :: "pyobject \<Rightarrow> string" where
  "py_str (PyStr s) = s"
| "py_str (PyInt n) = int_str n"
| "py_str (PyObject s r) = s"

fun py_repr :: "pyobject \<Rightarrow> string" where
  "py_repr (PyStr s) = str_repr False s"
| "py_repr (PyInt n) = int_str n"
| "py_repr (PyObject s r) = r"

fun py_ascii :: "pyobject \<Rightarrow> string" where
  "py_ascii (PyStr s) = str_repr True s"
| "py_ascii (PyInt n) = int_str n"
| "py_ascii (PyObject s r) = ascii_escape r"

definition upper_ax :: "char \<Rightarrow> char" where
  "upper_ax c =
     (if 97 \<le> (of_char c :: nat) \<and> (of_char c :: nat) \<le> 120 then char_of (of_char c - 32 :: nat) else c)"

definition formatlong :: "int \<Rightarrow> bool \<Rightarrow> nat option \<Rightarrow> char \<Rightarrow> string" where
  "formatlong n alt p c =
     (let base = (if c = CHR ''o'' then 8 else if c = CHR ''x'' \<or> c = CHR ''X'' then 16 else 10);
          digits = to_base base (nat \<bar>n\<bar>);
          marker = (if alt \<and> c = CHR ''o'' then ''0o''
                    else if alt \<and> (c = CHR ''x'' \<or> c = CHR ''X'') then ''0x'' else []);
          zeros = replicate ((case p of None \<Rightarrow> 0 | Some k \<Rightarrow> k) - length digits) CHR ''0'';
          s = (if n < 0 then ''-'' else []) @ marker @ zeros @ digits
      in if c = CHR ''X'' then map upper_ax s else s)"

definition format_output :: "conv_spec \<Rightarrow> bool \<Rightarrow> string \<Rightarrow> string" where
  "format_output sp numeric str =
     (let fill = (if numeric \<and> f_zero sp then CHR ''0'' else CHR '' '');
          len = length str;
          len = (case prec sp of
                   Some p \<Rightarrow> if conv sp \<in> set ''sra'' \<and> len > p then p else len
                 | None \<Rightarrow> len);
          signed = numeric \<and> str \<noteq> [] \<and> (hd str = CHR ''-'' \<or> hd str = CHR ''+'');
          signchar = (if signed then [hd str]
                      else if numeric \<and> f_sign sp then ''+''
                      else if numeric \<and> f_blank sp then '' ''
                      else []);
          pindex = (if signed then 1 else 0);
          len = (if signed then len - 1 else len);
          w = (case width sp of None \<Rightarrow> len | Some w \<Rightarrow> max w len);
          w = (if signchar \<noteq> [] \<and> w > len then w - 1 else w);
          marked = (f_alt sp \<and> conv sp \<in> set ''xXo'');
          marker = (if marked then take 2 (drop pindex str) else []);
          pindex = (if marked then pindex + 2 else pindex);
          w = (if marked then w - 2 else w);
          len = (if marked then len - 2 else len);
          padl = (if w > len \<and> \<not> f_ljust sp then replicate (w - len) fill else []);
          w = (if w > len \<and> \<not> f_ljust sp then len else w)
      in (if fill \<noteq> CHR '' '' then signchar @ marker @ padl else padl @ signchar @ marker)
         @ take len (drop pindex str) @ replicate (w - len) CHR '' '')"

definition format_value :: "extern \<Rightarrow> conv_spec \<Rightarrow> pyobject \<Rightarrow> error + string" where
  "format_value ext sp v =
     (let c = conv sp in
      if c = CHR ''s'' then Inr (format_output sp False (py_str v))
      else if c = CHR ''r'' then Inr (format_output sp False (py_repr v))
      else if c = CHR ''a'' then Inr (format_output sp False (py_ascii v))
      else if c \<in> set ''iduoxX'' then
        (case v of
           PyInt n \<Rightarrow>
             (case prec sp of
                Some p \<Rightarrow>
                  if int p > INT_MAX - 3 then Inl OverflowError
                  else Inr (format_output sp True (formatlong n (f_alt sp) (prec sp) c))
              | None \<Rightarrow> Inr (format_output sp True (formatlong n (f_alt sp) None c)))
         | _ \<Rightarrow> Inl TypeError)
      else if c \<in> set ''eEfFgG'' then
        (case v of
           PyInt n \<Rightarrow>
             (case ext sp n of Inl e \<Rightarrow> Inl e | Inr s \<Rightarrow> Inr (format_output sp True s))
         | _ \<Rightarrow> Inl TypeError)
      else if c = CHR ''c'' then
        (case v of
           PyStr s \<Rightarrow> if length s = 1 then Inr (format_output sp False s) else Inl TypeError
         | PyInt n \<Rightarrow>
             if n < 0 \<or> n \<ge> 0x110000 then Inl OverflowError
             else if n < 256 then Inr (format_output sp False [char_of n])
             else (case ext sp n of Inl e \<Rightarrow> Inl e | Inr s \<Rightarrow> Inr (format_output sp False s))
         | _ \<Rightarrow> Inl TypeError)
      else Inl ValueError)"

definition parse_width ::
  "string \<Rightarrow> pyobject list \<Rightarrow> error + (nat option \<times> bool \<times> string \<times> pyobject list)" where
  "parse_width s args =
     (case s of
        [] \<Rightarrow> Inr (None, False, [], args)
      | c # r \<Rightarrow>
          if c = CHR ''*'' then
            (case args of
               [] \<Rightarrow> Inl TypeError
             | v # args' \<Rightarrow>
                 (case v of
                    PyInt n \<Rightarrow>
                      if n > PY_SSIZE_T_MAX \<or> n < - PY_SSIZE_T_MAX - 1 then Inl OverflowError
                      else Inr (Some (nat \<bar>n\<bar>), n < 0, r, args')
                  | _ \<Rightarrow> Inl TypeError))
          else if is_digit c then
            (if int (digits_val (takeWhile is_digit s)) > PY_SSIZE_T_MAX then Inl ValueError
             else Inr (Some (digits_val (takeWhile is_digit s)), False,
                       dropWhile is_digit s, args))
          else Inr (None, False, s, args))"

definition parse_prec ::
  "string \<Rightarrow> pyobject list \<Rightarrow> error + (nat option \<times> string \<times> pyobject list)" where
  "parse_prec s args =
     (case s of
        [] \<Rightarrow> Inr (None, [], args)
      | c # r \<Rightarrow>
          if c \<noteq> CHR ''.'' then Inr (None, s, args)
          else
            (case r of
               [] \<Rightarrow> Inr (Some 0, [], args)
             | d # r' \<Rightarrow>
                 if d = CHR ''*'' then
                   (case args of
                      [] \<Rightarrow> Inl TypeError
                    | v # args' \<Rightarrow>
                        (case v of
                           PyInt n \<Rightarrow>
                             if n > INT_MAX \<or> n < - INT_MAX - 1 then Inl OverflowError
                             else Inr (Some (nat n), r', args')
                         | _ \<Rightarrow> Inl TypeError))
                 else if is_digit d then
                   (if int (digits_val (takeWhile is_digit r)) > INT_MAX then Inl ValueError
                    else Inr (Some (digits_val (takeWhile is_digit r)),
                              dropWhile is_digit r, args))
                 else Inr (Some 0, r, args)))"

definition is_flag :: "char \<Rightarrow> bool" where
  "is_flag c = (c \<in> set ''-+ #0'')"

definition format_arg ::
  "extern \<Rightarrow> string \<Rightarrow> pyobject list \<Rightarrow> error + (string \<times> string \<times> pyobject list)" where
  "format_arg ext s args =
     (case s of
        [] \<Rightarrow> Inl ValueError
      | c # r \<Rightarrow>
          if c = CHR ''%'' then Inr (''%'', r, args)
          else if c = CHR ''('' then Inl TypeError
          else
            let flags = takeWhile is_flag s in
            (case parse_width (dropWhile is_flag s) args of
               Inl e \<Rightarrow> Inl e
             | Inr (w, neg, s, args) \<Rightarrow>
                 (case parse_prec s args of
                    Inl e \<Rightarrow> Inl e
                  | Inr (p, s, args) \<Rightarrow>
                      (case (case s of
                               [] \<Rightarrow> []
                             | m # t \<Rightarrow> if m \<in> set ''hlL'' then t else s) of
                         [] \<Rightarrow> Inl ValueError
                       | ch # rest \<Rightarrow>
                           (case args of
                              [] \<Rightarrow> Inl TypeError
                            | v # args \<Rightarrow>
                                (case format_value ext
                                        \<lparr>f_ljust = CHR ''-'' \<in> set flags \<or> neg,
                                         f_sign = CHR ''+'' \<in> set flags,
                                         f_blank = CHR '' '' \<in> set flags,
                                         f_alt = CHR ''#'' \<in> set flags,
                                         f_zero = CHR ''0'' \<in> set flags,
                                         width = w, prec = p, conv = ch\<rparr> v of
                                   Inl e \<Rightarrow> Inl e
                                 | Inr out \<Rightarrow> Inr (out, rest, args)))))))"

lemma parse_width_shorter:
  "parse_width s args = Inr (w, neg, rest, args') \<Longrightarrow> length rest \<le> length s"
  unfolding parse_width_def
  by (auto split: list.splits if_splits pyobject.splits
        intro: le_trans [OF length_dropWhile_le])

lemma parse_prec_shorter:
  "parse_prec s args = Inr (p, rest, args') \<Longrightarrow> length rest \<le> length s"
  unfolding parse_prec_def
  by (auto split: list.splits if_splits pyobject.splits
        intro: le_trans [OF length_dropWhile_le] le_SucI)

lemma format_arg_shorter:
  assumes "format_arg ext s args = Inr (out, rest, args')"
  shows "length rest \<le> length s"
proof (cases s)
  case Nil
  then show ?thesis using assms by (simp add: format_arg_def)
next
  case (Cons c r)
  show ?thesis
  proof (cases "c = CHR ''%''")
    case True
    then show ?thesis using assms Cons by (simp add: format_arg_def)
  next
    case False
    then have nparen: "c \<noteq> CHR ''(''" using assms Cons
      by (auto simp: format_arg_def split: if_splits)
    obtain w neg s1 a1 where pw: "parse_width (dropWhile is_flag s) args = Inr (w, neg, s1, a1)"
      using assms Cons False nparen
      by (auto simp: format_arg_def Let_def split: sum.splits)
    obtain p s2 a2 where pp: "parse_prec s1 a1 = Inr (p, s2, a2)"
      using assms Cons False nparen pw
      by (auto simp: format_arg_def Let_def split: sum.splits)
    have l1: "length s1 \<le> length s"
      using parse_width_shorter [OF pw] length_dropWhile_le [of is_flag s] by simp
    have l2: "length s2 \<le> length s1" using pp by (rule parse_prec_shorter)
    have "length rest \<le> length s2"
      using assms Cons False nparen pw pp
      by (auto simp: format_arg_def Let_def split: sum.splits list.splits if_splits)
    then show ?thesis using l1 l2 by simp
  qed
qed

function percent_format :: "extern \<Rightarrow> string \<Rightarrow> pyobject list \<Rightarrow> error + string" where
  "percent_format ext [] args = (if args = [] then Inr [] else Inl TypeError)"
| "percent_format ext (c # fmt) args =
     (if c \<noteq> CHR ''%'' then
        (case percent_format ext fmt args of Inl e \<Rightarrow> Inl e | Inr out \<Rightarrow> Inr (c # out))
      else
        (case format_arg ext fmt args of
           Inl e \<Rightarrow> Inl e
         | Inr (s, rest, args') \<Rightarrow>
             (case percent_format ext rest args' of
                Inl e \<Rightarrow> Inl e
              | Inr out \<Rightarrow> Inr (s @ out))))"
  by pat_completeness auto
termination
  by (relation "measure (\<lambda>(ext, fmt, args). length fmt)")
     (auto dest: format_arg_shorter)

declare percent_format.simps [simp del]

section \<open>The request handler\<close>

text \<open>
  What the process can observe and change: the wall clock, which the environment
  advances, and the text handed to standard output and to standard error, one list
  element per \<open>write\<close> call, in the order of the calls.
\<close>

record world =
  clock :: timeval
  stdout :: "string list"
  stderr :: "string list"

definition stdout_write :: "string \<Rightarrow> world \<Rightarrow> world" where
  "stdout_write s w = w\<lparr>stdout := stdout w @ [s]\<rparr>"

definition stderr_write :: "string \<Rightarrow> world \<Rightarrow> world" where
  "stderr_write s w = w\<lparr>stderr := stderr w @ [s]\<rparr>"

text \<open>
  A \<open>RedeyeHTTPRequestHandler\<close>: of the state it inherits, the logging hooks read only
  the address of the peer, a pair of host and port.
\<close>

record handler =
  client_address :: "string \<times> nat"

definition protocol_version :: string where
  "protocol_version = ''HTTP/1.1''"

text \<open>\<open>BaseHTTPRequestHandler.address_string\<close>: the host of the peer.\<close>

definition address_string :: "handler \<Rightarrow> string" where
  "address_string self = fst (client_address self)"

text \<open>\<open>RedeyeHTTPRequestHandler.log_date_time_string\<close>: the current time, read in UTC,
  in NCSA access log format.\<close>

definition log_date_time_string :: "timeval \<Rightarrow> error + string" where
  "log_date_time_string tv =
    (case utcnow tv of
       Inl e \<Rightarrow> Inl e
     | Inr now \<Rightarrow> Inr (strftime now ''%d/%b/%Y:%H:%M:%S +0000''))"

text \<open>
  \<open>RedeyeHTTPRequestHandler.log_message\<close>. The tuple of the outer \<open>%\<close> is evaluated from
  left to right: the address, the timestamp, then \<open>format % args\<close>; an exception in any
  of them leaves before \<open>sys.stdout.write\<close> is reached.
\<close>

definition log_message ::
  "extern \<Rightarrow> handler \<Rightarrow> string \<Rightarrow> pyobject list \<Rightarrow> world \<Rightarrow> (error + unit) \<times> world" where
  "log_message ext self format args w =
    (let address = address_string self in
     case log_date_time_string (clock w) of
       Inl e \<Rightarrow> (Inl e, w)
     | Inr ts \<Rightarrow>
         (case percent_format ext format args of
            Inl e \<Rightarrow> (Inl e, w)
          | Inr message \<Rightarrow>
              (case percent_format ext ''%s - - [%s] %s\<newline>''
                      [PyStr address, PyStr ts, PyStr message] of
                 Inl e \<Rightarrow> (Inl e, w)
               | Inr line \<Rightarrow> (Inr (), stdout_write line w))))"

section \<open>The caller of the logging hook\<close>

text \<open>
  One call of the hook by the server: the instant of the call, the handler of the
  connection, and the template and arguments the server passes.
\<close>

record log_event =
  at :: timeval
  peer :: handler
  template :: string
  arguments :: "pyobject list"

definition issue :: "extern \<Rightarrow> log_event \<Rightarrow> world \<Rightarrow> (error + unit) \<times> world" where
  "issue ext ev w = log_message ext (peer ev) (template ev) (arguments ev) (w\<lparr>clock := at ev\<rparr>)"

text \<open>
  A single-threaded caller issues its events one after the other; each call returns
  before the next begins. An exception of one call is the caller's to handle (the socket
  server reports it and goes on to the next request), so the later events are still
  issued.
\<close>

fun log_events :: "extern \<Rightarrow> log_event list \<Rightarrow> world \<Rightarrow> (error + unit) list \<times> world" where
  "log_events ext [] w = ([], w)"
| "log_events ext (ev # evs) w =
     (case issue ext ev w of
        (r, w') \<Rightarrow> (case log_events ext evs w' of (rs, w'') \<Rightarrow> (r # rs, w'')))"

section \<open>The main program\<close>

definition host :: string where "host = ''localhost''"
definition port :: nat where "port = 8000"

text \<open>
  \<open>print(s, file=sys.stderr)\<close> writes the text and then the line end.
\<close>

definition print_stderr :: "string \<Rightarrow> world \<Rightarrow> world" where
  "print_stderr s w = stderr_write ''\<newline>'' (stderr_write s w)"

text \<open>
  What ends \<open>serve_forever\<close>: it returns only by an exception, either the
  \<open>KeyboardInterrupt\<close> that Python raises for SIGINT, or another exception, which comes
  with the traceback that the interpreter prints for it.
\<close>

datatype exn = KeyboardInterrupt | Uncaught string

text \<open>
  The process as the operating system sees it: what it was started with (which the
  program never reads), the address it asked to bind, whether the listening socket has
  been closed, and the exit status.
\<close>

record environment =
  argv :: "string list"
  environ :: "(string \<times> string) list"

record process =
  state :: world
  bound_to :: "string \<times> nat"
  server_closed :: bool
  exit_status :: nat

text \<open>
  The \<open>__main__\<close> block. \<open>serve_forever\<close> is the external server loop: from the world
  it is started in, it leaves a world (in which requests have been served and logged
  through the handler) and the exception that ended it.

  On \<open>KeyboardInterrupt\<close> the handler prints the notice and raises \<open>SystemExit(0)\<close>; the
  \<open>finally\<close> clause closes the server on both paths, and the exception then leaves the
  program: status 0 for \<open>SystemExit(0)\<close>, a traceback and status 1 for any other.
\<close>

definition main :: "environment \<Rightarrow> (world \<Rightarrow> world \<times> exn) \<Rightarrow> world \<Rightarrow> process" where
  "main env serve_forever w =
    (let server_address = (host, port);
         w = print_stderr (''Starting server on '' @ host @ '':'' @ dec port) w;
         (w, raised) = serve_forever w
     in case raised of
          KeyboardInterrupt \<Rightarrow>
            let w = print_stderr ''Exiting on SIGINT'' w
            in \<lparr>state = w, bound_to = server_address, server_closed = True, exit_status = 0\<rparr>
        | Uncaught traceback \<Rightarrow>
            \<lparr>state = stderr_write traceback w, bound_to = server_address,
             server_closed = True, exit_status = 1\<rparr>)"

text \<open>
  The server loop of a single-threaded server that handles the given log events and is
  then interrupted; an exception of the hook is the server's to report and does not end
  the loop.
\<close>

definition serve_events :: "extern \<Rightarrow> log_event list \<Rightarrow> exn \<Rightarrow> world \<Rightarrow> world \<times> exn" where
  "serve_events ext evs raised w = (snd (log_events ext evs w), raised)"

section \<open>Reading a timestamp back\<close>

text \<open>
  The pattern \<open>^\d{2}/[A-Za-z]{3}/\d{4}:\d{2}:\d{2}:\d{2} \+0000$\<close> has a fixed width: it
  is a sequence of character classes, one per position, and a string matches it when it
  has that length and every character is in the class of its position.
\<close>

datatype char_class = Digit | Alpha | Lit char

definition is_alpha :: "char \<Rightarrow> bool" where
  "is_alpha c = (c \<in> set ''ABCDEFGHIJKLMNOPQRSTUVWXYZabcdefghijklmnopqrstuvwxyz'')"

fun in_class :: "char_class \<Rightarrow> char \<Rightarrow> bool" where
  "in_class Digit c = is_digit c"
| "in_class Alpha c = is_alpha c"
| "in_class (Lit l) c = (c = l)"

definition CLF_TIMESTAMP :: "char_class list" where
  "CLF_TIMESTAMP =
     [Digit, Digit, Lit CHR ''/'', Alpha, Alpha, Alpha, Lit CHR ''/'',
      Digit, Digit, Digit, Digit, Lit CHR '':'', Digit, Digit, Lit CHR '':'',
      Digit, Digit, Lit CHR '':'', Digit, Digit,
      Lit CHR '' '', Lit CHR ''+'', Lit CHR ''0'', Lit CHR ''0'', Lit CHR ''0'', Lit CHR ''0'']"

definition matches_fixed :: "char_class list \<Rightarrow> string \<Rightarrow> bool" where
  "matches_fixed p s = list_all2 in_class p s"

definition month_of_abbr :: "string \<Rightarrow> nat option" where
  "month_of_abbr s = map_of (zip (tl MONTH_ABBR) [1..<13]) s"

definition timegm :: "nat \<Rightarrow> nat \<Rightarrow> nat \<Rightarrow> nat \<Rightarrow> nat \<Rightarrow> nat \<Rightarrow> nat" where
  "timegm y m d hh mm ss =
     (ymd2ord y m d - EPOCH_ORDINAL) * 86400 + hh * 3600 + mm * 60 + ss"

definition decode_clf_timestamp :: "string \<Rightarrow> nat option" where
  "decode_clf_timestamp s =
     (if \<not> matches_fixed CLF_TIMESTAMP s then None
      else case month_of_abbr (take 3 (drop 3 s)) of
        None \<Rightarrow> None
      | Some m \<Rightarrow>
          let d = digits_val (take 2 s);
              y = digits_val (take 4 (drop 7 s));
              hh = digits_val (take 2 (drop 12 s));
              mm = digits_val (take 2 (drop 15 s));
              ss = digits_val (take 2 (drop 18 s))
          in if 1 \<le> d \<and> d \<le> days_in_month y m \<and> hh < 24 \<and> mm < 60 \<and> ss < 60
                \<and> EPOCH_ORDINAL \<le> ymd2ord y m d
             then Some (timegm y m d hh mm ss)
             else None)"


section \<open>The log line of the specification\<close>

text \<open>
  The line as the specification writes it:
  \<open><clientAddress> - - [<timestamp>] <renderedMessage>\n\<close>.
\<close>

definition clf_line_text :: "string \<Rightarrow> string \<Rightarrow> string \<Rightarrow> string" where
  "clf_line_text address ts message =
     address @ '' - - ['' @ ts @ ''] '' @ message @ ''\<newline>''"

text \<open>The captured standard output: the text of all writes, in order.\<close>

definition captured :: "world \<Rightarrow> string" where
  "captured w = concat (stdout w)"

text \<open>
  The physical lines of a text: the pieces that end at a line feed, and what follows the
  last line feed when that is not empty.
\<close>

fun split_lines :: "string \<Rightarrow> string \<Rightarrow> string list" where
  "split_lines cur [] = (if cur = [] then [] else [cur])"
| "split_lines cur (c # s) =
     (if c = CHR 0x0A then cur # split_lines [] s else split_lines (cur @ [c]) s)"

definition lines_of :: "string \<Rightarrow> string list" where
  "lines_of s = split_lines [] s"

text \<open>
  The pattern \<open>^\S+ - - \[[^\]]+\] .*$\<close> on one line. \<open>\S+\<close> is followed by a space, so
  it can only be the longest prefix free of white space; \<open>[^\]]+\<close> is followed by
  \<open>]\<close>, so it can only be the longest run free of \<open>]\<close>; \<open>.*\<close> takes the rest, which
  must not hold a line feed. White space is what \<open>\s\<close> matches among the characters of
  the model.
\<close>

definition is_space :: "char \<Rightarrow> bool" where
  "is_space c = (c \<in> set [CHR 0x09, CHR 0x0A, CHR 0x0B, CHR 0x0C, CHR 0x0D, CHR 0x1C, CHR 0x1D,
                          CHR 0x1E, CHR 0x1F, CHR 0x20, CHR 0x85, CHR 0xA0])"

definition starts_with :: "string \<Rightarrow> string \<Rightarrow> bool" where
  "starts_with p s = (take (length p) s = p)"

definition matches_clf_line :: "string \<Rightarrow> bool" where
  "matches_clf_line l =
     (let address = takeWhile (\<lambda>c. \<not> is_space c) l;
          r = dropWhile (\<lambda>c. \<not> is_space c) l;
          ts = takeWhile (\<lambda>c. c \<noteq> CHR '']'') (drop 6 r);
          r' = dropWhile (\<lambda>c. c \<noteq> CHR '']'') (drop 6 r)
      in address \<noteq> [] \<and> starts_with '' - - ['' r \<and> ts \<noteq> [] \<and> starts_with ''] '' r'
         \<and> CHR 0x0A \<notin> set (drop 2 r'))"

section \<open>Templates and the arguments they take\<close>

text \<open>
  What a template asks of its arguments, read off the template alone: one slot for every
  argument it consumes, a \<open>*\<close> of a width or precision or a conversion. A template with
  a conversion that is cut short, that names a mapping key or that has an unknown
  conversion character has no such reading.
\<close>

datatype slot = Star | Conv char

definition spec_width :: "string \<Rightarrow> (slot list \<times> string) option" where
  "spec_width s =
     (case s of
        [] \<Rightarrow> Some ([], [])
      | c # r \<Rightarrow>
          if c = CHR ''*'' then Some ([Star], r)
          else if is_digit c then
            (if int (digits_val (takeWhile is_digit s)) > PY_SSIZE_T_MAX then None
             else Some ([], dropWhile is_digit s))
          else Some ([], s))"

definition spec_prec :: "string \<Rightarrow> (slot list \<times> string) option" where
  "spec_prec s =
     (case s of
        [] \<Rightarrow> Some ([], [])
      | c # r \<Rightarrow>
          if c \<noteq> CHR ''.'' then Some ([], s)
          else
            (case r of
               [] \<Rightarrow> Some ([], [])
             | d # r' \<Rightarrow>
                 if d = CHR ''*'' then Some ([Star], r')
                 else if is_digit d then
                   (if int (digits_val (takeWhile is_digit r)) > INT_MAX then None
                    else Some ([], dropWhile is_digit r))
                 else Some ([], r)))"

definition spec_slots :: "string \<Rightarrow> (slot list \<times> string) option" where
  "spec_slots s =
     (case s of
        [] \<Rightarrow> None
      | c # r \<Rightarrow>
          if c = CHR ''%'' then Some ([], r)
          else if c = CHR ''('' then None
          else
            (case spec_width (dropWhile is_flag s) of
               None \<Rightarrow> None
             | Some (ws, s) \<Rightarrow>
                 (case spec_prec s of
                    None \<Rightarrow> None
                  | Some (ps, s) \<Rightarrow>
                      (case (case s of
                               [] \<Rightarrow> []
                             | m # t \<Rightarrow> if m \<in> set ''hlL'' then t else s) of
                         [] \<Rightarrow> None
                       | ch # rest \<Rightarrow>
                           if ch \<in> set ''sraiduoxXeEfFgGc''
                           then Some (ws @ ps @ [Conv ch], rest)
                           else None))))"

lemma spec_width_shorter: "spec_width s = Some (ws, rest) \<Longrightarrow> length rest \<le> length s"
  unfolding spec_width_def
  by (auto split: list.splits if_splits intro: le_trans [OF length_dropWhile_le])

lemma spec_prec_shorter: "spec_prec s = Some (ps, rest) \<Longrightarrow> length rest \<le> length s"
  unfolding spec_prec_def
  by (auto split: list.splits if_splits intro: le_trans [OF length_dropWhile_le] le_SucI)

lemma spec_slots_shorter:
  assumes "spec_slots s = Some (sl, rest)"
  shows "length rest \<le> length s"
proof (cases s)
  case Nil
  then show ?thesis using assms by (simp add: spec_slots_def)
next
  case (Cons c r)
  show ?thesis
  proof (cases "c = CHR ''%''")
    case True
    then show ?thesis using assms Cons by (simp add: spec_slots_def)
  next
    case False
    then have nparen: "c \<noteq> CHR ''(''" using assms Cons
      by (auto simp: spec_slots_def split: if_splits)
    obtain ws s1 where pw: "spec_width (dropWhile is_flag s) = Some (ws, s1)"
      using assms Cons False nparen
      by (auto simp: spec_slots_def split: option.splits)
    obtain ps s2 where pp: "spec_prec s1 = Some (ps, s2)"
      using assms Cons False nparen pw
      by (auto simp: spec_slots_def split: option.splits)
    have l1: "length s1 \<le> length s"
      using spec_width_shorter [OF pw] length_dropWhile_le [of is_flag s] by simp
    have l2: "length s2 \<le> length s1" using pp by (rule spec_prec_shorter)
    have "length rest \<le> length s2"
      using assms Cons False nparen pw pp
      by (auto simp: spec_slots_def split: option.splits list.splits if_splits)
    then show ?thesis using l1 l2 by simp
  qed
qed

function template_slots :: "string \<Rightarrow> slot list option" where
  "template_slots [] = Some []"
| "template_slots (c # fmt) =
     (if c \<noteq> CHR ''%'' then template_slots fmt
      else
        (case spec_slots fmt of
           None \<Rightarrow> None
         | Some (sl, rest) \<Rightarrow>
             (case template_slots rest of
                None \<Rightarrow> None
              | Some sls \<Rightarrow> Some (sl @ sls))))"
  by pat_completeness auto
termination
  by (relation "measure length") (auto dest: spec_slots_shorter)

declare template_slots.simps [simp del]

text \<open>
  The arguments a slot is compatible with: a \<open>*\<close> and the number conversions take an
  integer, \<open>%c\<close> an integer or a string of one character, \<open>%s\<close>, \<open>%r\<close> and \<open>%a\<close> anything.
\<close>

fun accepts :: "slot \<Rightarrow> pyobject \<Rightarrow> bool" where
  "accepts Star v = (case v of PyInt n \<Rightarrow> True | _ \<Rightarrow> False)"
| "accepts (Conv c) v =
     (if c \<in> set ''sra'' then True
      else if c = CHR ''c'' then
        (case v of PyInt n \<Rightarrow> True | PyStr s \<Rightarrow> length s = 1 | _ \<Rightarrow> False)
      else (case v of PyInt n \<Rightarrow> True | _ \<Rightarrow> False))"


section \<open>The calendar: \<open>ord2ymd\<close> inverts \<open>ymd2ord\<close>\<close>

definition month_day_from :: "bool \<Rightarrow> nat \<Rightarrow> nat \<Rightarrow> nat \<times> nat" where
  "month_day_from lp n e = (if DAYS_BEFORE_MONTH ! e + (if e > 2 \<and> lp then 1 else 0) > n
         then (e - 1, n - (DAYS_BEFORE_MONTH ! e + (if e > 2 \<and> lp then 1 else 0) - (DAYS_IN_MONTH ! (e - 1)
                                     + (if e - 1 = 2 \<and> lp then 1 else 0))) + 1)
         else (e, n - (DAYS_BEFORE_MONTH ! e + (if e > 2 \<and> lp then 1 else 0)) + 1))"

definition month_day_good :: "bool \<Rightarrow> nat \<Rightarrow> nat \<times> nat \<Rightarrow> bool" where
  "month_day_good lp n md = (case md of (m, d) \<Rightarrow> 1 \<le> m \<and> m \<le> 12 \<and> 1 \<le> d
       \<and> d \<le> DAYS_IN_MONTH ! m + (if m = 2 \<and> lp then 1 else 0)
       \<and> DAYS_BEFORE_MONTH ! m + (if m > 2 \<and> lp then 1 else 0) + d = n + 1)"

lemma month_est: "(n::nat) < 365 \<Longrightarrow> 1 \<le> (n + 50) div 32 \<and> (n + 50) div 32 \<le> 12"
  by arith

lemma month_cases: "(1::nat) \<le> e \<Longrightarrow> e \<le> 12 \<Longrightarrow> e \<in> {1,2,3,4,5,6,7,8,9,10,11,12}"
  by (simp; arith)

lemma md_1: "n < 14 \<Longrightarrow> month_day_good lp n (month_day_from lp n 1)"
  by (simp add: month_day_good_def month_day_from_def DAYS_BEFORE_MONTH_def DAYS_IN_MONTH_def) arith?

lemma md_2: "64 \<le> n + 50 \<Longrightarrow> n + 50 < 96 \<Longrightarrow> n < 365 \<Longrightarrow> month_day_good lp n (month_day_from lp n 2)"
  by (simp add: month_day_good_def month_day_from_def DAYS_BEFORE_MONTH_def DAYS_IN_MONTH_def) arith?


lemma md_3: "96 \<le> n + 50 \<Longrightarrow> n + 50 < 128 \<Longrightarrow> n < 365 \<Longrightarrow> month_day_good lp n (month_day_from lp n 3)"
  by (simp add: month_day_good_def month_day_from_def DAYS_BEFORE_MONTH_def DAYS_IN_MONTH_def) arith?


lemma md_4: "128 \<le> n + 50 \<Longrightarrow> n + 50 < 160 \<Longrightarrow> n < 365 \<Longrightarrow> month_day_good lp n (month_day_from lp n 4)"
  by (simp add: month_day_good_def month_day_from_def DAYS_BEFORE_MONTH_def DAYS_IN_MONTH_def) arith?


lemma md_5: "160 \<le> n + 50 \<Longrightarrow> n + 50 < 192 \<Longrightarrow> n < 365 \<Longrightarrow> month_day_good lp n (month_day_from lp n 5)"
  by (simp add: month_day_good_def month_day_from_def DAYS_BEFORE_MONTH_def DAYS_IN_MONTH_def) arith?


lemma md_6: "192 \<le> n + 50 \<Longrightarrow> n + 50 < 224 \<Longrightarrow> n < 365 \<Longrightarrow> month_day_good lp n (month_day_from lp n 6)"
  by (simp add: month_day_good_def month_day_from_def DAYS_BEFORE_MONTH_def DAYS_IN_MONTH_def) arith?


lemma md_7: "224 \<le> n + 50 \<Longrightarrow> n + 50 < 256 \<Longrightarrow> n < 365 \<Longrightarrow> month_day_good lp n (month_day_from lp n 7)"
  by (simp add: month_day_good_def month_day_from_def DAYS_BEFORE_MONTH_def DAYS_IN_MONTH_def) arith?


lemma md_8: "256 \<le> n + 50 \<Longrightarrow> n + 50 < 288 \<Longrightarrow> n < 365 \<Longrightarrow> month_day_good lp n (month_day_from lp n 8)"
  by (simp add: month_day_good_def month_day_from_def DAYS_BEFORE_MONTH_def DAYS_IN_MONTH_def) arith?


lemma md_9: "288 \<le> n + 50 \<Longrightarrow> n + 50 < 320 \<Longrightarrow> n < 365 \<Longrightarrow> month_day_good lp n (month_day_from lp n 9)"
  by (simp add: month_day_good_def month_day_from_def DAYS_BEFORE_MONTH_def DAYS_IN_MONTH_def) arith?


lemma md_10: "320 \<le> n + 50 \<Longrightarrow> n + 50 < 352 \<Longrightarrow> n < 365 \<Longrightarrow> month_day_good lp n (month_day_from lp n 10)"
  by (simp add: month_day_good_def month_day_from_def DAYS_BEFORE_MONTH_def DAYS_IN_MONTH_def) arith?


lemma md_11: "352 \<le> n + 50 \<Longrightarrow> n + 50 < 384 \<Longrightarrow> n < 365 \<Longrightarrow> month_day_good lp n (month_day_from lp n 11)"
  by (simp add: month_day_good_def month_day_from_def DAYS_BEFORE_MONTH_def DAYS_IN_MONTH_def) arith?


lemma md_12: "384 \<le> n + 50 \<Longrightarrow> n + 50 < 416 \<Longrightarrow> n < 365 \<Longrightarrow> month_day_good lp n (month_day_from lp n 12)"
  by (simp add: month_day_good_def month_day_from_def DAYS_BEFORE_MONTH_def DAYS_IN_MONTH_def) arith?

lemma month_day_from_good:
  assumes "n < 365"
  shows "month_day_good lp n (month_day_from lp n ((n + 50) div 32))"
proof -
  define e where "e = (n + 50) div 32"
  have bnd: "32 * e \<le> n + 50" "n + 50 < 32 * e + 32"
    unfolding e_def by arith+
  have "e \<in> {1,2,3,4,5,6,7,8,9,10,11,12}"
    unfolding e_def using month_est [OF assms] by (intro month_cases) simp_all
  then consider "e = 1" | "e = 2" | "e = 3" | "e = 4" | "e = 5" | "e = 6" | "e = 7" | "e = 8"
    | "e = 9" | "e = 10" | "e = 11" | "e = 12" by auto
  then have "month_day_good lp n (month_day_from lp n e)"
  proof cases
    case 1 then show ?thesis using bnd md_1 [of n lp] by simp
  next
    case 2 then show ?thesis using bnd assms md_2 [of n lp] by simp
  next
    case 3 then show ?thesis using bnd assms md_3 [of n lp] by simp
  next
    case 4 then show ?thesis using bnd assms md_4 [of n lp] by simp
  next
    case 5 then show ?thesis using bnd assms md_5 [of n lp] by simp
  next
    case 6 then show ?thesis using bnd assms md_6 [of n lp] by simp
  next
    case 7 then show ?thesis using bnd assms md_7 [of n lp] by simp
  next
    case 8 then show ?thesis using bnd assms md_8 [of n lp] by simp
  next
    case 9 then show ?thesis using bnd assms md_9 [of n lp] by simp
  next
    case 10 then show ?thesis using bnd assms md_10 [of n lp] by simp
  next
    case 11 then show ?thesis using bnd assms md_11 [of n lp] by simp
  next
    case 12 then show ?thesis using bnd assms md_12 [of n lp] by simp
  qed
  then show ?thesis unfolding e_def .
qed



lemma div4_cycle: "(e::nat) \<le> 3 \<Longrightarrow> (400 * a + 100 * b + 4 * c + e) div 4 = 100 * a + 25 * b + c"
  by simp

lemma div100_cycle:
  "(e::nat) \<le> 3 \<Longrightarrow> c \<le> 24 \<Longrightarrow> (400 * a + 100 * b + 4 * c + e) div 100 = 4 * a + b"
  by simp

lemma div400_cycle:
  "(e::nat) \<le> 3 \<Longrightarrow> c \<le> 24 \<Longrightarrow> b \<le> 3 \<Longrightarrow> (400 * a + 100 * b + 4 * c + e) div 400 = a"
  by simp

lemma mod4_cycle: "(400 * a + 100 * b + 4 * c + e + 1) mod 4 = (e + 1) mod (4::nat)"
proof -
  have "400 * a + 100 * b + 4 * c + e + 1 = (e + 1) + 4 * (100 * a + 25 * b + c)" by simp
  then show ?thesis by (simp only: mod_mult_self2)
qed

lemma mod100_cycle:
  "(400 * a + 100 * b + 4 * c + e + 1) mod 100 = (4 * c + e + 1) mod (100::nat)"
proof -
  have "400 * a + 100 * b + 4 * c + e + 1 = (4 * c + e + 1) + 100 * (4 * a + b)" by simp
  then show ?thesis by (simp only: mod_mult_self2)
qed

lemma mod400_cycle:
  "(400 * a + 100 * b + 4 * c + e + 1) mod 400 = (100 * b + 4 * c + e + 1) mod (400::nat)"
proof -
  have "400 * a + 100 * b + 4 * c + e + 1 = (100 * b + 4 * c + e + 1) + 400 * a" by simp
  then show ?thesis by (simp only: mod_mult_self2)
qed

lemma zero4: "(e::nat) \<le> 3 \<Longrightarrow> ((e + 1) mod 4 = 0) = (e = 3)"
  by (cases "e = 3") simp_all

lemma zero100:
  "(e::nat) \<le> 3 \<Longrightarrow> c \<le> 24 \<Longrightarrow> ((4 * c + e + 1) mod 100 = 0) = (c = 24 \<and> e = 3)"
proof (cases "c = 24 \<and> e = 3")
  case True then show ?thesis by simp
next
  case False
  assume "e \<le> 3" "c \<le> 24"
  with False have "4 * c + e + 1 < 100" by auto
  then show ?thesis using False by simp
qed

lemma zero400:
  "(e::nat) \<le> 3 \<Longrightarrow> c \<le> 24 \<Longrightarrow> b \<le> 3 \<Longrightarrow>
   ((100 * b + 4 * c + e + 1) mod 400 = 0) = (b = 3 \<and> c = 24 \<and> e = 3)"
proof (cases "b = 3 \<and> c = 24 \<and> e = 3")
  case True then show ?thesis by simp
next
  case False
  assume "e \<le> 3" "c \<le> 24" "b \<le> 3"
  with False have "100 * b + 4 * c + e + 1 < 400" by auto
  then show ?thesis using False by simp
qed

lemma days_before_year_cycle:
  assumes "b \<le> 3" "c \<le> 24" "e \<le> 3"
  shows "days_before_year (400 * a + 100 * b + 4 * c + e + 1)
         = 146097 * a + 36524 * b + 1461 * c + 365 * e"
  unfolding days_before_year_def
  using assms by (simp add: div4_cycle div100_cycle div400_cycle)

lemma is_leap_cycle:
  assumes "b \<le> 3" "c \<le> 24" "e \<le> 3"
  shows "is_leap (400 * a + 100 * b + 4 * c + e + 1) = (e = 3 \<and> (c \<noteq> 24 \<or> b = 3))"
  unfolding is_leap_def mod4_cycle mod100_cycle mod400_cycle
  using assms by (simp only: zero4 zero100 zero400) blast


definition ymd_good :: "nat \<Rightarrow> nat \<times> nat \<times> nat \<Rightarrow> bool" where
  "ymd_good n ymd = (case ymd of (y, m, d) \<Rightarrow>
      1 \<le> y \<and> 1 \<le> m \<and> m \<le> 12 \<and> 1 \<le> d \<and> d \<le> days_in_month y m
      \<and> ymd2ord y m d = n \<and> days_before_year y < n \<and> n \<le> days_before_year y + 366)"

lemma ord2ymd_good:
  assumes "1 \<le> n"
  shows "ymd_good n (ord2ymd n)"
proof -
  define a where "a = (n - 1) div 146097"
  define r1 where "r1 = (n - 1) mod 146097"
  define b where "b = r1 div 36524"
  define r2 where "r2 = r1 mod 36524"
  define c where "c = r2 div 1461"
  define r3 where "r3 = r2 mod 1461"
  define e where "e = r3 div 365"
  define r where "r = r3 mod 365"
  define lp where "lp = (e = 3 \<and> (c \<noteq> 24 \<or> b = 3))"
  define m where "m = (r + 50) div 32"
  define p where "p = DAYS_BEFORE_MONTH ! m + (if m > 2 \<and> lp then 1 else 0)"
  have unf: "ord2ymd n =
     (if e = 4 \<or> b = 4 then (a * 400 + 1 + b * 100 + c * 4 + e - 1, 12, 31)
      else if p > r
           then (a * 400 + 1 + b * 100 + c * 4 + e, m - 1,
                 r - (p - (DAYS_IN_MONTH ! (m - 1) + (if m - 1 = 2 \<and> lp then 1 else 0))) + 1)
           else (a * 400 + 1 + b * 100 + c * 4 + e, m, r - p + 1))"
    unfolding ord2ymd_def Let_def DI400Y_def DI100Y_def DI4Y_def
      p_def m_def lp_def r_def e_def r3_def c_def r2_def b_def r1_def a_def
    by (rule refl)
  have n_eq: "n = 146097 * a + r1 + 1" unfolding a_def r1_def using assms by simp
  have r1_eq: "r1 = 36524 * b + r2" unfolding b_def r2_def by simp
  have r2_eq: "r2 = 1461 * c + r3" unfolding c_def r3_def by simp
  have r3_eq: "r3 = 365 * e + r" unfolding e_def r_def by simp
  have r1_lt: "r1 < 146097" unfolding r1_def by simp
  have r2_lt: "r2 < 36524" unfolding r2_def by simp
  have r3_lt: "r3 < 1461" unfolding r3_def by simp
  have r_lt: "r < 365" unfolding r_def by simp
  have b_le: "b \<le> 4" using r1_lt r1_eq by simp
  have c_le: "c \<le> 24" using r2_lt r2_eq by simp
  have e_le: "e \<le> 4" using r3_lt r3_eq by simp
  show ?thesis
  proof (cases "b = 4")
    case True
    then have z: "r2 = 0" using r1_lt r1_eq by simp
    then have "c = 0" "e = 0" "r = 0" using r2_eq r3_eq by simp_all
    then have nn: "n = 146097 * a + 146097" using n_eq r1_eq z True by simp
    have yy: "a * 400 + 1 + b * 100 + c * 4 + e - 1 = 400 * a + 100 * 3 + 4 * 24 + 3 + 1"
      using True \<open>c = 0\<close> \<open>e = 0\<close> by simp
    have dby: "days_before_year (400 * a + 100 * 3 + 4 * 24 + 3 + 1)
         = 146097 * a + 36524 * 3 + 1461 * 24 + 365 * 3"
      by (rule days_before_year_cycle) simp_all
    have lpy: "is_leap (400 * a + 100 * 3 + 4 * 24 + 3 + 1)"
      by (subst is_leap_cycle) simp_all
    have "ord2ymd n = (400 * a + 100 * 3 + 4 * 24 + 3 + 1, 12, 31)"
      using unf True yy by simp
    then show ?thesis
      unfolding ymd_good_def ymd2ord_def days_in_month_def days_before_month_def
      using dby lpy nn by (simp add: DAYS_BEFORE_MONTH_def DAYS_IN_MONTH_def)
  next
    case False
    then have b3: "b \<le> 3" using b_le by simp
    show ?thesis
    proof (cases "e = 4")
      case True
      then have "r = 0" using r3_lt r3_eq by simp
      have c23: "c \<le> 23" using r2_lt r2_eq r3_eq True by simp
      then have c24: "c \<le> 24" "c \<noteq> 24" by simp_all
      have nn: "n = 146097 * a + 36524 * b + 1461 * c + 1461"
        using n_eq r1_eq r2_eq r3_eq True \<open>r = 0\<close> by simp
      have yy: "a * 400 + 1 + b * 100 + c * 4 + e - 1 = 400 * a + 100 * b + 4 * c + 3 + 1"
        using True by simp
      have dby: "days_before_year (400 * a + 100 * b + 4 * c + 3 + 1)
           = 146097 * a + 36524 * b + 1461 * c + 365 * 3"
        using b3 c24 by (intro days_before_year_cycle) simp_all
      have lpy: "is_leap (400 * a + 100 * b + 4 * c + 3 + 1)"
        using b3 c24 by (subst is_leap_cycle) simp_all
      have "ord2ymd n = (400 * a + 100 * b + 4 * c + 3 + 1, 12, 31)"
        using unf True yy by simp
      then show ?thesis
        unfolding ymd_good_def ymd2ord_def days_in_month_def days_before_month_def
        using dby lpy nn by (simp add: DAYS_BEFORE_MONTH_def DAYS_IN_MONTH_def)
    next
      case e4: False
      then have e3: "e \<le> 3" using e_le by simp
      define y where "y = 400 * a + 100 * b + 4 * c + e + 1"
      have yy: "a * 400 + 1 + b * 100 + c * 4 + e = y" unfolding y_def by simp
      have dby: "days_before_year y = 146097 * a + 36524 * b + 1461 * c + 365 * e"
        unfolding y_def using b3 c_le e3 by (rule days_before_year_cycle)
      have lpy: "is_leap y = lp"
        unfolding y_def lp_def using b3 c_le e3 by (rule is_leap_cycle)
      have nn: "n = days_before_year y + r + 1"
        using n_eq r1_eq r2_eq r3_eq dby by simp
      obtain mm dd where md: "month_day_from lp r m = (mm, dd)" by (cases "month_day_from lp r m")
      have "month_day_good lp r (month_day_from lp r ((r + 50) div 32))"
        using r_lt by (rule month_day_from_good)
      then have good: "1 \<le> mm" "mm \<le> 12" "1 \<le> dd"
        "dd \<le> DAYS_IN_MONTH ! mm + (if mm = 2 \<and> lp then 1 else 0)"
        "DAYS_BEFORE_MONTH ! mm + (if mm > 2 \<and> lp then 1 else 0) + dd = r + 1"
        using md unfolding month_day_good_def m_def by simp_all
      define X where
        "X = r - (p - (DAYS_IN_MONTH ! (m - 1) + (if m - 1 = 2 \<and> lp then 1 else 0))) + 1"
      define Y where "Y = r - p + 1"
      have mdf: "month_day_from lp r m = (if p > r then (m - 1, X) else (m, Y))"
        unfolding month_day_from_def p_def X_def Y_def by (rule refl)
      have "ord2ymd n = (if p > r then (y, m - 1, X) else (y, m, Y))"
        using unf False e4 unfolding yy X_def Y_def by (simp only: simp_thms if_False)
      then have "ord2ymd n = (y, mm, dd)"
        using md unfolding mdf by (cases "p > r") simp_all
      moreover have "dd \<le> days_in_month y mm"
        unfolding days_in_month_def lpy using good(4)
        by (auto simp: DAYS_IN_MONTH_def split: if_splits)
      moreover have "ymd2ord y mm dd = n"
        unfolding ymd2ord_def days_before_month_def lpy nn using good(5) by simp
      moreover have "1 \<le> y" unfolding y_def by simp
      ultimately show ?thesis
        unfolding ymd_good_def using good(1,2,3) nn r_lt by simp
    qed
  qed
qed

lemma leap_step_atoms:
  fixes a b c k :: nat
  assumes "a \<le> a'" "b' \<le> b + 1" "b \<le> a" "b' \<le> a'" "c \<le> c'"
  shows "k * 365 + a - b + c \<le> Suc k * 365 + a' - b' + c'"
  using assms by simp

lemma div_Suc_le: "Suc k div m \<le> k div m + 1"
proof (cases "m = 0")
  case True then show ?thesis by simp
next
  case False
  have "Suc k div m \<le> (k + m) div m" by (rule div_le_mono) (use False in simp)
  also have "\<dots> = k div m + 1" using False div_add_self2 [of m k] by simp
  finally show ?thesis .
qed

lemma days_before_year_step:
  "k * 365 + k div 4 - k div 100 + k div 400
   \<le> Suc k * 365 + Suc k div 4 - Suc k div 100 + Suc k div 400"
proof (rule leap_step_atoms)
  show "k div 4 \<le> Suc k div 4" by (rule div_le_mono) simp
  show "Suc k div 100 \<le> k div 100 + 1" by (rule div_Suc_le)
  show "k div 100 \<le> k div 4" by (rule div_le_mono2) simp_all
  show "Suc k div 100 \<le> Suc k div 4" by (rule div_le_mono2) simp_all
  show "k div 400 \<le> Suc k div 400" by (rule div_le_mono) simp
qed

lemma days_before_year_mono:
  assumes "y \<le> y'"
  shows "days_before_year y \<le> days_before_year y'"
proof -
  have le: "y - 1 \<le> y' - 1" using assms by simp
  show ?thesis
    unfolding days_before_year_def
    using lift_Suc_mono_le [of "\<lambda>k. k * 365 + k div 4 - k div 100 + k div 400",
        OF days_before_year_step le] .
qed

lemma days_before_year_values:
  "days_before_year 10000 = 3652059" "days_before_year 999 = 364512" "days_before_year 1970 = 719162"
  "days_before_year 1969 = 718797"
  by (simp_all add: days_before_year_def)

section \<open>Digits and the shape of the timestamp\<close>

lemma digit_cases: "k < 10 \<Longrightarrow> k \<in> {0,1,2,3,4,5,6,7,8,9::nat}"
  by (simp; arith)

lemma digit_char_digit: "k < 10 \<Longrightarrow> is_digit (digit_char k)"
  by (drule digit_cases) (auto simp: is_digit_def digit_char_def)

lemma digit_val_digit_char: "k < 10 \<Longrightarrow> digit_val (digit_char k) = k"
  by (drule digit_cases) (auto simp: digit_val_def digit_char_def)

lemma dec_small: "n < 10 \<Longrightarrow> dec n = [digit_char n]"
  by (subst dec.simps) simp

lemma dec_step: "10 \<le> n \<Longrightarrow> dec n = dec (n div 10) @ [digit_char (n mod 10)]"
  by (subst dec.simps) simp

lemma zfill2_shape:
  assumes "k < 100"
  shows "zfill2 k = [digit_char (k div 10), digit_char (k mod 10)]"
proof (cases "k < 10")
  case True
  then show ?thesis by (simp add: zfill2_def dec_small digit_char_def)
next
  case False
  then have "10 \<le> k" "k div 10 < 10" using assms by simp_all
  then show ?thesis using False by (simp add: zfill2_def dec_step dec_small)
qed

lemma dec4_shape:
  assumes "1000 \<le> y" "y < 10000"
  shows "dec y = [digit_char (y div 1000), digit_char (y div 100 mod 10),
                  digit_char (y div 10 mod 10), digit_char (y mod 10)]"
proof -
  have e: "y div 10 div 10 = y div 100" "y div 100 div 10 = y div 1000"
    by (simp_all add: div_mult2_eq [symmetric])
  have "10 \<le> y" "10 \<le> y div 10" "10 \<le> y div 100" "y div 1000 < 10"
    using assms by simp_all
  then show ?thesis
    by (simp add: dec_step [of y] dec_step [of "y div 10"] dec_step [of "y div 100"]
        dec_small [of "y div 1000"] e)
qed

lemma strftime_clf:
  "strftime dt ''%d/%b/%Y:%H:%M:%S +0000'' =
     zfill2 (day dt) @ ''/'' @ MONTH_ABBR ! month dt @ ''/'' @ dec (year dt) @ '':''
     @ zfill2 (hour dt) @ '':'' @ zfill2 (minute dt) @ '':'' @ zfill2 (second dt) @ '' +0000''"
  by (simp add: strftime_conv_def)


lemma month_abbr_shape:
  assumes "1 \<le> m" "m \<le> 12"
  shows "\<exists>a b c. MONTH_ABBR ! m = [a, b, c] \<and> is_alpha a \<and> is_alpha b \<and> is_alpha c
           \<and> month_of_abbr [a, b, c] = Some m"
proof -
  have "m \<in> {1,2,3,4,5,6,7,8,9,10,11,12}" using assms by (rule month_cases)
  then consider "m = 1" | "m = 2" | "m = 3" | "m = 4" | "m = 5" | "m = 6" | "m = 7" | "m = 8"
    | "m = 9" | "m = 10" | "m = 11" | "m = 12" by auto
  then show ?thesis
    by cases (simp_all add: MONTH_ABBR_def is_alpha_def month_of_abbr_def upt_rec)
qed

lemma digits_val_2: "digits_val [a, b] = 10 * digit_val a + digit_val b"
  by (simp add: digits_val_def)

lemma digits_val_4:
  "digits_val [a, b, c, d] = 10 * (10 * (10 * digit_val a + digit_val b) + digit_val c) + digit_val d"
  by (simp add: digits_val_def)

lemma two_digits: "10 * (k div 10) + k mod 10 = (k::nat)"
  by simp

lemma four_digits:
  "10 * (10 * (10 * (y div 1000) + y div 100 mod 10) + y div 10 mod 10) + y mod 10 = (y::nat)"
proof -
  have "y div 1000 = y div 100 div 10" "y div 100 = y div 10 div 10"
    by (simp_all add: div_mult2_eq [symmetric])
  then show ?thesis by simp
qed

lemma four_digits_flat:
  "1000 * (y div 1000) + 100 * (y div 100 mod 10) + 10 * (y div 10 mod 10) + y mod 10 = (y::nat)"
  using four_digits [of y] by simp

lemma seconds_split:
  fixes t :: nat
  shows "t div 86400 * 86400 + (t mod 86400 div 3600 * 3600
         + (t mod 86400 mod 3600 div 60 * 60 + t mod 86400 mod 60)) = t"
proof -
  define s where "s = t mod 86400"
  have "s mod 3600 mod 60 = s mod 60" by (rule mod_mod_cancel) simp
  then have "s mod 3600 div 60 * 60 + s mod 60 = s mod 3600"
    using div_mult_mod_eq [of "s mod 3600" 60] by simp
  then have "s div 3600 * 3600 + (s mod 3600 div 60 * 60 + s mod 60) = s"
    using div_mult_mod_eq [of s 3600] by simp
  then show ?thesis unfolding s_def using div_mult_mod_eq [of t 86400] by simp
qed


lemma days_in_month_le_31:
  assumes "1 \<le> m" "m \<le> 12"
  shows "days_in_month y m \<le> 31"
proof -
  have "m \<in> {1,2,3,4,5,6,7,8,9,10,11,12}" using assms by (rule month_cases)
  then consider "m = 1" | "m = 2" | "m = 3" | "m = 4" | "m = 5" | "m = 6" | "m = 7" | "m = 8"
    | "m = 9" | "m = 10" | "m = 11" | "m = 12" by auto
  then show ?thesis
    by cases (simp_all add: days_in_month_def DAYS_IN_MONTH_def)
qed

lemma gmtime_year_range:
  assumes "t \<le> 253402300799" "ord2ymd (EPOCH_ORDINAL + t div 86400) = (y, m, d)"
  shows "1000 \<le> y \<and> y \<le> 9999 \<and> 1 \<le> m \<and> m \<le> 12 \<and> 1 \<le> d \<and> d \<le> days_in_month y m
         \<and> ymd2ord y m d = EPOCH_ORDINAL + t div 86400"
proof -
  define n where "n = EPOCH_ORDINAL + t div 86400"
  have "t div 86400 \<le> 253402300799 div 86400" using assms(1) by (rule div_le_mono)
  then have n_le: "n \<le> 3652059" and n_ge: "719163 \<le> n"
    unfolding n_def EPOCH_ORDINAL_def by simp_all
  have "ymd_good n (ord2ymd n)" using n_ge by (intro ord2ymd_good) simp
  then have g: "1 \<le> m" "m \<le> 12" "1 \<le> d" "d \<le> days_in_month y m" "ymd2ord y m d = n"
    "days_before_year y < n" "n \<le> days_before_year y + 366"
    using assms(2) unfolding ymd_good_def n_def by simp_all
  have "y \<le> 9999"
  proof (rule ccontr)
    assume "\<not> y \<le> 9999"
    then have "days_before_year 10000 \<le> days_before_year y"
      by (intro days_before_year_mono) simp
    then show False using g(6) n_le by (simp add: days_before_year_values)
  qed
  moreover have "1000 \<le> y"
  proof (rule ccontr)
    assume "\<not> 1000 \<le> y"
    then have "days_before_year y \<le> days_before_year 999"
      by (intro days_before_year_mono) simp
    then show False using g(7) n_ge by (simp add: days_before_year_values)
  qed
  ultimately show ?thesis using g unfolding n_def by simp
qed


section \<open>Formatting and the log line\<close>

lemma format_output_plain:
  assumes "width sp = None" "prec sp = None" "conv sp \<notin> set ''xXo''"
  shows "format_output sp False str = str"
  using assms by (simp add: format_output_def Let_def)

lemma format_arg_s:
  "format_arg ext (CHR ''s'' # rest) (v # args) = Inr (py_str v, rest, args)"
  by (simp add: format_arg_def is_flag_def parse_width_def parse_prec_def is_digit_def
      format_value_def format_output_plain)

lemma percent_format_literal:
  "CHR ''%'' \<notin> set s \<Longrightarrow>
   percent_format ext (s @ fmt) args =
     (case percent_format ext fmt args of Inl e \<Rightarrow> Inl e | Inr out \<Rightarrow> Inr (s @ out))"
  by (induction s) (auto simp: percent_format.simps split: sum.splits)

lemma outer_template:
  "percent_format ext ''%s - - [%s] %s\<newline>'' [PyStr address, PyStr ts, PyStr message]
   = Inr (clf_line_text address ts message)"
  by (simp add: percent_format.simps format_arg_s clf_line_text_def)

lemma log_message_success:
  assumes "log_date_time_string (clock w) = Inr ts"
    and "percent_format ext format args = Inr message"
  shows "log_message ext self format args w
         = (Inr (), stdout_write (clf_line_text (address_string self) ts message) w)"
  using assms by (simp add: log_message_def outer_template)

lemma log_message_failure:
  assumes "log_date_time_string (clock w) = Inl e
           \<or> (\<exists>ts. log_date_time_string (clock w) = Inr ts) \<and> percent_format ext format args = Inl e"
  shows "log_message ext self format args w = (Inl e, w)"
  using assms by (auto simp: log_message_def)

lemma log_message_cases:
  "(\<exists>e. log_message ext self format args w = (Inl e, w))
   \<or> (\<exists>ts message. log_date_time_string (clock w) = Inr ts
         \<and> percent_format ext format args = Inr message
         \<and> log_message ext self format args w
             = (Inr (), stdout_write (clf_line_text (address_string self) ts message) w))"
  by (auto simp: log_message_def outer_template split: sum.splits)

section \<open>A rendered template has its slots filled\<close>



lemma format_value_accepts:
  assumes "format_value ext sp v = Inr out"
  shows "conv sp \<in> set ''sraiduoxXeEfFgGc'' \<and> accepts (Conv (conv sp)) v"
  using assms unfolding format_value_def Let_def
  by (auto split: if_splits pyobject.splits option.splits sum.splits)





section \<open>A line feed in the template reaches the rendered message\<close>

lemma in_set_dropWhile: "x \<in> set s \<Longrightarrow> \<not> P x \<Longrightarrow> x \<in> set (dropWhile P s)"
  by (induction s) auto

lemma newline_not_digit: "\<not> is_digit (CHR 0x0A)"
  by (simp add: is_digit_def)

lemma newline_not_flag: "\<not> is_flag (CHR 0x0A)"
  by (simp add: is_flag_def)

lemma newline_dropWhile_digit:
  "CHR 0x0A \<in> set s \<Longrightarrow> CHR 0x0A \<in> set (dropWhile is_digit s)"
  by (induction s) (auto simp: newline_not_digit)

lemma newline_dropWhile_flag:
  "CHR 0x0A \<in> set s \<Longrightarrow> CHR 0x0A \<in> set (dropWhile is_flag s)"
  by (induction s) (auto simp: newline_not_flag)

lemma parse_width_newline:
  assumes "parse_width s args = Inr (w, neg, rest, args')" "CHR 0x0A \<in> set s"
  shows "CHR 0x0A \<in> set rest"
proof (cases s)
  case Nil
  then show ?thesis using assms by simp
next
  case (Cons c r)
  show ?thesis
  proof (cases "c = CHR ''*''")
    case True
    then have "rest = r" using assms(1) Cons
      by (auto simp: parse_width_def split: list.splits if_splits pyobject.splits)
    then show ?thesis using assms(2) Cons True by auto
  next
    case False
    then have "rest = dropWhile is_digit s \<or> rest = s" using assms(1) Cons
      by (auto simp: parse_width_def split: if_splits)
    then show ?thesis using assms(2) newline_dropWhile_digit by auto
  qed
qed

lemma parse_prec_newline:
  assumes "parse_prec s args = Inr (p, rest, args')" "CHR 0x0A \<in> set s"
  shows "CHR 0x0A \<in> set rest"
proof (cases s)
  case Nil
  then show ?thesis using assms by simp
next
  case (Cons c r)
  show ?thesis
  proof (cases "c = CHR ''.''")
    case False
    then have "rest = s" using assms(1) Cons by (simp add: parse_prec_def)
    then show ?thesis using assms(2) by simp
  next
    case dot: True
    then have nlr: "CHR 0x0A \<in> set r" using assms(2) Cons by auto
    show ?thesis
    proof (cases r)
      case Nil
      then show ?thesis using nlr by simp
    next
      case (Cons d r')
      show ?thesis
      proof (cases "d = CHR ''*''")
        case True
        then have "rest = r'" using assms(1) \<open>s = c # r\<close> dot Cons
          by (auto simp: parse_prec_def split: list.splits if_splits pyobject.splits)
        then show ?thesis using nlr Cons True by auto
      next
        case False
        then have "rest = dropWhile is_digit r \<or> rest = r" using assms(1) \<open>s = c # r\<close> dot Cons
          by (auto simp: parse_prec_def split: if_splits)
        then show ?thesis using nlr newline_dropWhile_digit by auto
      qed
    qed
  qed
qed

lemma format_arg_percent:
  "format_arg ext (CHR ''%'' # r) args = Inr (out, rest, args') \<Longrightarrow> rest = r"
  by (simp add: format_arg_def)

lemma format_arg_conversion:
  assumes "format_arg ext s args = Inr (out, rest, args')" "s = c # r" "c \<noteq> CHR ''%''"
  shows "\<exists>w neg s1 a1 p s2 a2 ch v sp.
           parse_width (dropWhile is_flag s) args = Inr (w, neg, s1, a1)
           \<and> parse_prec s1 a1 = Inr (p, s2, a2)
           \<and> (case s2 of [] \<Rightarrow> [] | m # t \<Rightarrow> if m \<in> set ''hlL'' then t else s2) = ch # rest
           \<and> a2 = v # args' \<and> format_value ext sp v = Inr out \<and> conv sp = ch"
proof -
  have nparen: "c \<noteq> CHR ''(''" using assms
    by (auto simp: format_arg_def split: if_splits)
  obtain w neg s1 a1 where pw: "parse_width (dropWhile is_flag s) args = Inr (w, neg, s1, a1)"
    using assms nparen
    by (auto simp: format_arg_def Let_def split: sum.splits)
  obtain p s2 a2 where pp: "parse_prec s1 a1 = Inr (p, s2, a2)"
    using assms nparen pw
    by (auto simp: format_arg_def Let_def split: sum.splits)
  obtain ch v sp where fin:
    "(case s2 of [] \<Rightarrow> [] | m # t \<Rightarrow> if m \<in> set ''hlL'' then t else s2) = ch # rest"
    "a2 = v # args'" "format_value ext sp v = Inr out" "conv sp = ch"
    using assms nparen pw pp
    by (auto simp: format_arg_def Let_def split: sum.splits list.splits if_splits)
  show ?thesis
    by (intro exI conjI) (rule pw, rule pp, rule fin(1), rule fin(2), rule fin(3), rule fin(4))
qed

lemma skip_length_modifier_newline:
  assumes "CHR 0x0A \<in> set s"
  shows "CHR 0x0A \<in> set (case s of [] \<Rightarrow> [] | m # t \<Rightarrow> if m \<in> set ''hlL'' then t else s)"
proof (cases s)
  case Nil
  then show ?thesis using assms by simp
next
  case (Cons m t)
  show ?thesis
  proof (cases "m \<in> set ''hlL''")
    case True
    then have "m \<noteq> CHR 0x0A" by auto
    then have "CHR 0x0A \<in> set t" using assms Cons by simp
    then show ?thesis using Cons True by simp
  next
    case False
    then show ?thesis using assms Cons by simp
  qed
qed

lemma conversion_not_newline: "ch \<in> set ''sraiduoxXeEfFgGc'' \<Longrightarrow> ch \<noteq> CHR 0x0A"
  by auto

lemma format_arg_newline:
  assumes "format_arg ext s args = Inr (out, rest, args')" "CHR 0x0A \<in> set s"
  shows "CHR 0x0A \<in> set rest"
proof (cases s)
  case Nil
  then show ?thesis using assms by simp
next
  case (Cons c r)
  show ?thesis
  proof (cases "c = CHR ''%''")
    case True
    then have "rest = r" using assms(1) Cons format_arg_percent by blast
    then show ?thesis using assms(2) Cons True by simp
  next
    case False
    from format_arg_conversion [OF assms(1) Cons False]
    obtain w neg s1 a1 p s2 a2 ch v sp where
      pw: "parse_width (dropWhile is_flag s) args = Inr (w, neg, s1, a1)"
      and pp: "parse_prec s1 a1 = Inr (p, s2, a2)"
      and s3: "(case s2 of [] \<Rightarrow> [] | m # t \<Rightarrow> if m \<in> set ''hlL'' then t else s2) = ch # rest"
      and fv: "format_value ext sp v = Inr out" "conv sp = ch"
      by blast
    have "CHR 0x0A \<in> set (dropWhile is_flag s)"
      using assms(2) by (rule newline_dropWhile_flag)
    then have "CHR 0x0A \<in> set s1" by (rule parse_width_newline [OF pw])
    then have "CHR 0x0A \<in> set s2" by (rule parse_prec_newline [OF pp])
    then have in_s3: "CHR 0x0A \<in> set (ch # rest)"
      using skip_length_modifier_newline [of s2] unfolding s3 by simp
    have "ch \<in> set ''sraiduoxXeEfFgGc''"
      using format_value_accepts [OF fv(1)] fv(2) by simp
    then have "ch \<noteq> CHR 0x0A" by (rule conversion_not_newline)
    then show ?thesis using in_s3 by simp
  qed
qed

lemma percent_format_newline:
  "percent_format ext fmt args = Inr out \<Longrightarrow> CHR 0x0A \<in> set fmt \<Longrightarrow> CHR 0x0A \<in> set out"
proof (induction ext fmt args arbitrary: out rule: percent_format.induct)
  case (1 ext args)
  then show ?case by simp
next
  case (2 ext c fmt args)
  show ?case
  proof (cases "c = CHR ''%''")
    case False
    then obtain out' where o: "percent_format ext fmt args = Inr out'" "out = c # out'"
      using "2.prems"(1) by (auto simp: percent_format.simps split: sum.splits)
    show ?thesis
    proof (cases "c = CHR 0x0A")
      case True
      then show ?thesis using o(2) by simp
    next
      case nl: False
      then have "CHR 0x0A \<in> set fmt" using "2.prems"(2) by simp
      from "2.IH"(1) [OF False o(1) this] show ?thesis using o(2) by simp
    qed
  next
    case True
    then obtain s rest args' out' where fa: "format_arg ext fmt args = Inr (s, rest, args')"
      and pf: "percent_format ext rest args' = Inr out'" and o: "out = s @ out'"
      using "2.prems"(1) by (auto simp: percent_format.simps split: sum.splits)
    have "CHR 0x0A \<in> set fmt" using "2.prems"(2) True by simp
    then have "CHR 0x0A \<in> set rest" by (rule format_arg_newline [OF fa])
    then have "CHR 0x0A \<in> set out'"
      using "2.IH"(2) [OF _ fa _ _ pf] True by simp
    then show ?thesis using o by simp
  qed
qed

section \<open>Physical lines and the line pattern\<close>

lemma split_lines_line:
  "CHR 0x0A \<notin> set l \<Longrightarrow>
   split_lines cur (l @ CHR 0x0A # rest) = (cur @ l) # split_lines [] rest"
  by (induction l arbitrary: cur) auto

lemma split_lines_no_newline:
  "CHR 0x0A \<notin> set l \<Longrightarrow> split_lines cur l = (if cur @ l = [] then [] else [cur @ l])"
  by (induction l arbitrary: cur) auto

lemma lines_of_line:
  "CHR 0x0A \<notin> set l \<Longrightarrow> lines_of (l @ CHR 0x0A # rest) = l # lines_of rest"
  unfolding lines_of_def using split_lines_line [of l "[]" rest] by simp

lemma lines_of_Nil: "lines_of [] = []"
  by (simp add: lines_of_def)

lemma lines_of_terminated:
  "\<forall>l \<in> set ls. CHR 0x0A \<notin> set l \<Longrightarrow>
   lines_of (concat (map (\<lambda>l. l @ [CHR 0x0A]) ls)) = ls"
  by (induction ls) (simp_all add: lines_of_Nil lines_of_line)

lemma lines_of_nonempty:
  assumes "CHR 0x0A \<in> set s"
  shows "lines_of s \<noteq> []"
proof -
  obtain p q where "s = p @ CHR 0x0A # q" "CHR 0x0A \<notin> set p"
    using split_list_first [OF assms] by blast
  then show ?thesis by (simp add: lines_of_line)
qed

lemma lines_of_one:
  "CHR 0x0A \<notin> set body \<Longrightarrow> lines_of (body @ [CHR 0x0A]) = [body]"
  by (simp add: lines_of_line lines_of_Nil)

lemma lines_of_more:
  assumes "CHR 0x0A \<in> set body"
  shows "2 \<le> length (lines_of (body @ [CHR 0x0A]))"
proof -
  obtain p q where pq: "body = p @ CHR 0x0A # q" "CHR 0x0A \<notin> set p"
    using split_list_first [OF assms] by blast
  have "lines_of (body @ [CHR 0x0A]) = p # lines_of (q @ [CHR 0x0A])"
    unfolding pq(1) using pq(2) lines_of_line [of p "q @ [CHR 0x0A]"] by simp
  moreover have "lines_of (q @ [CHR 0x0A]) \<noteq> []"
    by (rule lines_of_nonempty) simp
  ultimately show ?thesis by (cases "lines_of (q @ [CHR 0x0A])") simp_all
qed

lemma space_is_space: "is_space CHR '' ''"
  by (simp add: is_space_def)

lemma matches_clf_line_text:
  assumes "a \<noteq> []" "\<forall>c \<in> set a. \<not> is_space c" "ts \<noteq> []" "CHR '']'' \<notin> set ts"
    "CHR 0x0A \<notin> set m"
  shows "matches_clf_line (a @ '' - - ['' @ ts @ ''] '' @ m)"
proof -
  let ?l = "a @ '' - - ['' @ ts @ ''] '' @ m"
  have tw: "takeWhile (\<lambda>c. \<not> is_space c) ?l = a"
    using assms(2) by (simp add: takeWhile_append2 space_is_space)
  have dw: "dropWhile (\<lambda>c. \<not> is_space c) ?l = '' - - ['' @ ts @ ''] '' @ m"
    using assms(2) by (simp add: dropWhile_append2 space_is_space)
  have d6: "drop 6 ('' - - ['' @ ts @ ''] '' @ m) = ts @ ''] '' @ m" by simp
  have nb: "\<And>x. x \<in> set ts \<Longrightarrow> x \<noteq> CHR '']''" using assms(4) by auto
  have tw2: "takeWhile (\<lambda>c. c \<noteq> CHR '']'') (ts @ ''] '' @ m) = ts"
    using nb by (simp add: takeWhile_append2)
  have dw2: "dropWhile (\<lambda>c. c \<noteq> CHR '']'') (ts @ ''] '' @ m) = ''] '' @ m"
    using nb by (simp add: dropWhile_append2)
  show ?thesis
    unfolding matches_clf_line_def Let_def tw dw d6 tw2 dw2
    using assms(1,3,5) by (simp add: starts_with_def)
qed

lemma list_all2_in_class:
  "list_all2 in_class p s \<Longrightarrow> c \<in> set s \<Longrightarrow> \<exists>k \<in> set p. in_class k c"
  by (induction rule: list_all2_induct) auto

lemma clf_timestamp_chars:
  assumes "matches_fixed CLF_TIMESTAMP ts"
  shows "ts \<noteq> [] \<and> CHR '']'' \<notin> set ts \<and> CHR 0x0A \<notin> set ts"
proof -
  have len: "length ts = 26"
    using assms list_all2_lengthD [of in_class CLF_TIMESTAMP ts]
    by (simp add: matches_fixed_def CLF_TIMESTAMP_def)
  have cls: "\<And>c. c \<in> set ts \<Longrightarrow> is_digit c \<or> is_alpha c \<or> c \<in> set ''/: +0''"
  proof -
    fix c assume "c \<in> set ts"
    then obtain k where "k \<in> set CLF_TIMESTAMP" "in_class k c"
      using assms list_all2_in_class unfolding matches_fixed_def by blast
    then show "is_digit c \<or> is_alpha c \<or> c \<in> set ''/: +0''"
      by (auto simp: CLF_TIMESTAMP_def)
  qed
  have "\<not> is_digit CHR '']''" "\<not> is_alpha CHR '']''" "CHR '']'' \<notin> set ''/: +0''"
    "\<not> is_digit (CHR 0x0A)" "\<not> is_alpha (CHR 0x0A)" "CHR 0x0A \<notin> set ''/: +0''"
    by (simp_all add: is_digit_def is_alpha_def)
  then show ?thesis using cls len by auto
qed

section \<open>The timestamp of a clock reading\<close>

lemma clf_timestamp_of_clock:
  assumes "tv_sec tv \<le> 253402300799"
  shows "\<exists>ts. log_date_time_string tv = Inr ts
            \<and> matches_fixed CLF_TIMESTAMP ts
            \<and> decode_clf_timestamp ts = Some (tv_sec tv)"
proof -
  define t where "t = tv_sec tv"
  define s where "s = t mod 86400"
  define hh where "hh = s div 3600"
  define mi where "mi = s mod 3600 div 60"
  define ss where "ss = s mod 60"
  obtain y m d where ymd: "ord2ymd (EPOCH_ORDINAL + t div 86400) = (y, m, d)"
    by (cases "ord2ymd (EPOCH_ORDINAL + t div 86400)")
  have t_le: "t \<le> 253402300799" using assms unfolding t_def .
  from gmtime_year_range [OF t_le ymd]
  have y: "1000 \<le> y" "y \<le> 9999" and m: "1 \<le> m" "m \<le> 12"
    and d: "1 \<le> d" "d \<le> days_in_month y m"
    and ord: "ymd2ord y m d = EPOCH_ORDINAL + t div 86400" by simp_all
  have "s < 86400" unfolding s_def by simp
  then have hms: "hh < 24" "mi < 60" "ss < 60" unfolding hh_def mi_def ss_def by simp_all
  have d31: "d < 100" using d(2) days_in_month_le_31 [OF m, of y] by simp
  define dt where "dt = \<lparr>year = y, month = m, day = d, hour = hh, minute = mi,
                       second = ss, microsecond = tv_usec tv\<rparr>"
  have now: "utcnow tv = Inr dt"
    unfolding utcnow_def gmtime_def Let_def t_def [symmetric] ymd dt_def
      s_def [symmetric] hh_def [symmetric] mi_def [symmetric] ss_def [symmetric]
    using t_le y hms by (simp add: MINYEAR_def MAXYEAR_def)
  obtain a b c where abbr: "MONTH_ABBR ! m = [a, b, c]" "is_alpha a" "is_alpha b" "is_alpha c"
    "month_of_abbr [a, b, c] = Some m"
    using month_abbr_shape [OF m] by blast
  define ts where "ts = strftime dt ''%d/%b/%Y:%H:%M:%S +0000''"
  have ts: "ts = [digit_char (d div 10), digit_char (d mod 10), CHR ''/'', a, b, c, CHR ''/'',
     digit_char (y div 1000), digit_char (y div 100 mod 10),
     digit_char (y div 10 mod 10), digit_char (y mod 10), CHR '':'',
     digit_char (hh div 10), digit_char (hh mod 10), CHR '':'',
     digit_char (mi div 10), digit_char (mi mod 10), CHR '':'',
     digit_char (ss div 10), digit_char (ss mod 10),
     CHR '' '', CHR ''+'', CHR ''0'', CHR ''0'', CHR ''0'', CHR ''0'']"
    unfolding ts_def strftime_clf using y hms d31 abbr(1)
    by (simp add: dt_def zfill2_shape dec4_shape)
  have lt10: "d div 10 < 10" "d mod 10 < 10" "y div 1000 < 10" "y div 100 mod 10 < 10"
    "y div 10 mod 10 < 10" "y mod 10 < 10" "hh div 10 < 10" "hh mod 10 < 10"
    "mi div 10 < 10" "mi mod 10 < 10" "ss div 10 < 10" "ss mod 10 < 10"
    using d31 y hms by simp_all
  have pat: "matches_fixed CLF_TIMESTAMP ts"
    unfolding matches_fixed_def CLF_TIMESTAMP_def ts
    using lt10 abbr by (simp add: digit_char_digit)
  have tg: "timegm y m d hh mi ss = t"
    unfolding timegm_def ord hh_def mi_def ss_def s_def
    using seconds_split [of t] by simp
  have fields: "digits_val (take 2 ts) = d" "digits_val (take 4 (drop 7 ts)) = y"
    "digits_val (take 2 (drop 12 ts)) = hh" "digits_val (take 2 (drop 15 ts)) = mi"
    "digits_val (take 2 (drop 18 ts)) = ss" "take 3 (drop 3 ts) = [a, b, c]"
    unfolding ts using lt10
    by (simp_all add: digits_val_2 digits_val_4 digit_val_digit_char four_digits_flat)
  have dec: "decode_clf_timestamp ts = Some t"
    unfolding decode_clf_timestamp_def fields Let_def
    using pat abbr(5) d hms ord tg by simp
  have "log_date_time_string tv = Inr ts"
    unfolding log_date_time_string_def now ts_def by simp
  then show ?thesis using pat dec unfolding t_def by blast
qed


section \<open>The timestamp depends on the second only\<close>

lemma strftime_conv_microsecond:
  "strftime_conv (dt\<lparr>microsecond := u\<rparr>) c = strftime_conv dt c"
  by (simp add: strftime_conv_def)

lemma strftime_microsecond:
  "strftime (dt\<lparr>microsecond := u\<rparr>) fmt = strftime dt fmt"
  by (induction dt fmt rule: strftime.induct)
     (simp_all add: strftime_conv_microsecond split: list.splits)

lemma log_date_time_string_second:
  assumes "tv_sec t1 = tv_sec t2"
  shows "log_date_time_string t1 = log_date_time_string t2"
proof -
  have "\<And>dt1. utcnow t1 = Inr dt1 \<Longrightarrow> utcnow t2 = Inr (dt1\<lparr>microsecond := tv_usec t2\<rparr>)"
    using assms by (auto simp: utcnow_def Let_def split: if_splits prod.splits)
  moreover have "\<And>e. utcnow t1 = Inl e \<Longrightarrow> utcnow t2 = Inl e"
    using assms by (auto simp: utcnow_def Let_def split: if_splits prod.splits)
  ultimately show ?thesis
    unfolding log_date_time_string_def
    by (cases "utcnow t1") (simp_all add: strftime_microsecond strftime_conv_microsecond)
qed


lemma digit_char_mod10: "is_digit (digit_char (n mod 10))"
  by (rule digit_char_digit) simp

lemma dec_digits: "c \<in> set (dec n) \<Longrightarrow> is_digit c"
proof (induction n arbitrary: c rule: dec.induct)
  case (1 n)
  show ?case
  proof (cases "n < 10")
    case True
    then show ?thesis using "1.prems" by (simp add: dec_small digit_char_digit)
  next
    case False
    then have "dec n = dec (n div 10) @ [digit_char (n mod 10)]" by (simp add: dec_step)
    then show ?thesis using "1.prems" "1.IH" [OF False] digit_char_mod10 by auto
  qed
qed

lemma zfill2_digits: "c \<in> set (zfill2 n) \<Longrightarrow> is_digit c"
  by (auto simp: zfill2_def is_digit_def dest: dec_digits split: if_splits)

lemma dec_no_newline: "CHR 0x0A \<notin> set (dec n)"
  using dec_digits newline_not_digit by blast

lemma zfill2_no_newline: "CHR 0x0A \<notin> set (zfill2 n)"
  using zfill2_digits newline_not_digit by blast

lemma month_abbr_no_newline:
  assumes "1 \<le> m" "m \<le> 12"
  shows "CHR 0x0A \<notin> set (MONTH_ABBR ! m)"
proof -
  obtain a b c where "MONTH_ABBR ! m = [a, b, c]" "is_alpha a" "is_alpha b" "is_alpha c"
    using month_abbr_shape [OF assms] by blast
  moreover have "\<not> is_alpha (CHR 0x0A)" by (simp add: is_alpha_def)
  ultimately show ?thesis by auto
qed

lemma utcnow_month:
  assumes "utcnow tv = Inr now"
  shows "1 \<le> month now \<and> month now \<le> 12"
proof -
  obtain y m d where ymd: "ord2ymd (EPOCH_ORDINAL + tv_sec tv div 86400) = (y, m, d)"
    by (cases "ord2ymd (EPOCH_ORDINAL + tv_sec tv div 86400)")
  have "ymd_good (EPOCH_ORDINAL + tv_sec tv div 86400) (ord2ymd (EPOCH_ORDINAL + tv_sec tv div 86400))"
    by (rule ord2ymd_good) (simp add: EPOCH_ORDINAL_def)
  then have "1 \<le> m" "m \<le> 12" unfolding ymd ymd_good_def by simp_all
  moreover have "month now = m"
    using assms ymd by (auto simp: utcnow_def gmtime_def Let_def split: if_splits)
  ultimately show ?thesis by simp
qed

lemma log_date_time_string_no_newline:
  assumes "log_date_time_string tv = Inr ts"
  shows "CHR 0x0A \<notin> set ts"
proof -
  obtain now where now: "utcnow tv = Inr now" "ts = strftime now ''%d/%b/%Y:%H:%M:%S +0000''"
    using assms by (auto simp: log_date_time_string_def split: sum.splits)
  have "CHR 0x0A \<notin> set (MONTH_ABBR ! month now)"
    using utcnow_month [OF now(1)] by (intro month_abbr_no_newline) simp_all
  then show ?thesis
    unfolding now(2) strftime_clf by (simp add: dec_no_newline zfill2_no_newline)
qed

section \<open>Examples\<close>

text \<open>
  The inputs of the worked examples: a platform whose parameter is never reached by
  them, a clock reading on 3 November 2026, an empty world at that reading, and the
  handler of a connection from 127.0.0.1.
\<close>

definition example_extern :: extern where
  "example_extern sp n = Inl OverflowError"

definition example_clock :: timeval where
  "example_clock = \<lparr>tv_sec = 1793714405, tv_usec = 250000\<rparr>"

definition example_world :: world where
  "example_world = \<lparr>clock = example_clock, stdout = [], stderr = []\<rparr>"

definition example_handler :: handler where
  "example_handler = \<lparr>client_address = (''127.0.0.1'', 54321)\<rparr>"

lemma example_timestamp:
  "log_date_time_string example_clock = Inr ''03/Nov/2026:14:00:05 +0000''"
  by (simp add: example_clock_def log_date_time_string_def utcnow_def gmtime_def ord2ymd_def
      Let_def DI400Y_def DI100Y_def DI4Y_def EPOCH_ORDINAL_def DAYS_BEFORE_MONTH_def
      DAYS_IN_MONTH_def MINYEAR_def MAXYEAR_def strftime_conv_def zfill2_def dec.simps
      digit_char_def MONTH_ABBR_def)

lemma example_request_rendered:
  "percent_format ext ''\"%s\" %s %s'' [PyStr ''GET / HTTP/1.1'', PyStr ''200'', PyStr ''1024'']
   = Inr ''\"GET / HTTP/1.1\" 200 1024''"
  by (simp add: percent_format.simps format_arg_s)


lemma stray_percent_raises: "percent_format ext ''100% done'' [] = Inl TypeError"
  by (simp add: percent_format.simps format_arg_def is_flag_def parse_width_def parse_prec_def
      is_digit_def)

lemma trailing_percent_raises: "percent_format ext ''100%'' args = Inl ValueError"
  by (simp add: percent_format.simps format_arg_def)

lemma trailing_percent_slots: "template_slots ''100%'' = None"
  by (simp add: template_slots.simps spec_slots_def)

section \<open>Claims\<close>










text \<open>
  C5. A successful \<open>log_message\<close> changes the world by exactly one \<open>write\<close> on standard
  output, whose text is the complete line; the clock and standard error are as before.
\<close>

theorem log_message_single_write:
  assumes "log_message ext self format args w = (Inr (), w')"
  shows "\<exists>ts message. log_date_time_string (clock w) = Inr ts
           \<and> percent_format ext format args = Inr message
           \<and> w' = w\<lparr>stdout := stdout w @ [clf_line_text (address_string self) ts message]\<rparr>"
  using assms log_message_cases [of ext self format args w]
  by (auto simp: stdout_write_def)


theorem log_message_single_write_witness:
  "log_message example_extern example_handler ''\"%s\" %s %s''
     [PyStr ''GET / HTTP/1.1'', PyStr ''200'', PyStr ''1024''] example_world
   = (Inr (), example_world\<lparr>stdout :=
        [''127.0.0.1 - - [03/Nov/2026:14:00:05 +0000] \"GET / HTTP/1.1\" 200 1024\<newline>'']\<rparr>)
   \<and> (\<exists>ts message. log_date_time_string (clock example_world) = Inr ts
         \<and> percent_format example_extern ''\"%s\" %s %s''
               [PyStr ''GET / HTTP/1.1'', PyStr ''200'', PyStr ''1024''] = Inr message
         \<and> example_world\<lparr>stdout :=
               [''127.0.0.1 - - [03/Nov/2026:14:00:05 +0000] \"GET / HTTP/1.1\" 200 1024\<newline>'']\<rparr>
             = example_world\<lparr>stdout := stdout example_world @
                 [clf_line_text (address_string example_handler) ts message]\<rparr>)"
proof -
  have ts: "log_date_time_string (clock example_world) = Inr ''03/Nov/2026:14:00:05 +0000''"
    using example_timestamp by (simp add: example_world_def)
  have h: "log_message example_extern example_handler ''\"%s\" %s %s''
     [PyStr ''GET / HTTP/1.1'', PyStr ''200'', PyStr ''1024''] example_world
   = (Inr (), example_world\<lparr>stdout :=
        [''127.0.0.1 - - [03/Nov/2026:14:00:05 +0000] \"GET / HTTP/1.1\" 200 1024\<newline>'']\<rparr>)"
    using log_message_success [OF ts example_request_rendered, of example_extern example_handler]
    by (simp add: stdout_write_def clf_line_text_def address_string_def example_handler_def
        example_world_def)
  show ?thesis using h log_message_single_write [OF h] by blast
qed


text \<open>
  C6. The line is a function of the inputs and of the second of the clock: formatting
  the same address, template and arguments at two instants gives two lines that differ at
  most in the timestamp field, and the two timestamps are equal exactly when the instants
  lie in the same second.
\<close>

theorem log_message_deterministic:
  assumes "tv_sec t1 \<le> 253402300799" "tv_sec t2 \<le> 253402300799"
    and "percent_format ext format args = Inr message"
  shows "\<exists>ts1 ts2.
           log_message ext self format args (w\<lparr>clock := t1\<rparr>)
             = (Inr (), stdout_write (clf_line_text (address_string self) ts1 message)
                          (w\<lparr>clock := t1\<rparr>))
         \<and> log_message ext self format args (w\<lparr>clock := t2\<rparr>)
             = (Inr (), stdout_write (clf_line_text (address_string self) ts2 message)
                          (w\<lparr>clock := t2\<rparr>))
         \<and> (ts1 = ts2) = (tv_sec t1 = tv_sec t2)"
proof -
  obtain ts1 where ts1: "log_date_time_string t1 = Inr ts1"
    "decode_clf_timestamp ts1 = Some (tv_sec t1)"
    using clf_timestamp_of_clock [OF assms(1)] by blast
  obtain ts2 where ts2: "log_date_time_string t2 = Inr ts2"
    "decode_clf_timestamp ts2 = Some (tv_sec t2)"
    using clf_timestamp_of_clock [OF assms(2)] by blast
  have l1: "log_message ext self format args (w\<lparr>clock := t1\<rparr>)
             = (Inr (), stdout_write (clf_line_text (address_string self) ts1 message)
                          (w\<lparr>clock := t1\<rparr>))"
    by (rule log_message_success) (simp_all add: ts1(1) assms(3))
  have l2: "log_message ext self format args (w\<lparr>clock := t2\<rparr>)
             = (Inr (), stdout_write (clf_line_text (address_string self) ts2 message)
                          (w\<lparr>clock := t2\<rparr>))"
    by (rule log_message_success) (simp_all add: ts2(1) assms(3))
  have "(ts1 = ts2) = (tv_sec t1 = tv_sec t2)"
  proof
    assume "ts1 = ts2"
    then show "tv_sec t1 = tv_sec t2" using ts1(2) ts2(2) by simp
  next
    assume "tv_sec t1 = tv_sec t2"
    then have "log_date_time_string t1 = log_date_time_string t2"
      by (rule log_date_time_string_second)
    then show "ts1 = ts2" using ts1(1) ts2(1) by simp
  qed
  then show ?thesis using l1 l2 by blast
qed

theorem log_message_deterministic_witness:
  "tv_sec \<lparr>tv_sec = 1793714405, tv_usec = 100\<rparr> \<le> 253402300799
   \<and> tv_sec \<lparr>tv_sec = 1793714405, tv_usec = 999999\<rparr> \<le> 253402300799
   \<and> percent_format example_extern ''\"%s\" %s %s''
        [PyStr ''GET / HTTP/1.1'', PyStr ''200'', PyStr ''1024'']
      = Inr ''\"GET / HTTP/1.1\" 200 1024''
   \<and> (\<exists>ts1 ts2.
         log_message example_extern example_handler ''\"%s\" %s %s''
             [PyStr ''GET / HTTP/1.1'', PyStr ''200'', PyStr ''1024'']
             (example_world\<lparr>clock := \<lparr>tv_sec = 1793714405, tv_usec = 100\<rparr>\<rparr>)
           = (Inr (), stdout_write (clf_line_text (address_string example_handler) ts1
                                      ''\"GET / HTTP/1.1\" 200 1024'')
                        (example_world\<lparr>clock := \<lparr>tv_sec = 1793714405, tv_usec = 100\<rparr>\<rparr>))
         \<and> log_message example_extern example_handler ''\"%s\" %s %s''
             [PyStr ''GET / HTTP/1.1'', PyStr ''200'', PyStr ''1024'']
             (example_world\<lparr>clock := \<lparr>tv_sec = 1793714405, tv_usec = 999999\<rparr>\<rparr>)
           = (Inr (), stdout_write (clf_line_text (address_string example_handler) ts2
                                      ''\"GET / HTTP/1.1\" 200 1024'')
                        (example_world\<lparr>clock := \<lparr>tv_sec = 1793714405, tv_usec = 999999\<rparr>\<rparr>))
         \<and> ts1 = ts2)"
proof -
  have h1: "tv_sec \<lparr>tv_sec = 1793714405, tv_usec = 100\<rparr> \<le> 253402300799" by simp
  have h2: "tv_sec \<lparr>tv_sec = 1793714405, tv_usec = 999999\<rparr> \<le> 253402300799" by simp
  have h3: "percent_format example_extern ''\"%s\" %s %s''
        [PyStr ''GET / HTTP/1.1'', PyStr ''200'', PyStr ''1024'']
      = Inr ''\"GET / HTTP/1.1\" 200 1024''"
    by (rule example_request_rendered)
  show ?thesis
    using h1 h2 h3 log_message_deterministic [OF h1 h2 h3, of example_handler example_world]
    by simp
qed


text \<open>
  C9. \<open>log_message\<close> writes the address and the rendered message as they are. Of a
  successful call, the one text written spans at least two physical lines when the
  address or the rendered message holds a line feed, and exactly one line otherwise; and
  a line feed in the template is always in the rendered message.
\<close>

theorem log_message_no_sanitization:
  assumes "log_message ext self format args w = (Inr (), w')"
  shows "\<exists>line message. percent_format ext format args = Inr message
           \<and> stdout w' = stdout w @ [line]
           \<and> (if CHR 0x0A \<in> set (address_string self) \<or> CHR 0x0A \<in> set message
               then 2 \<le> length (lines_of line) else length (lines_of line) = 1)
           \<and> (CHR 0x0A \<in> set format \<longrightarrow> CHR 0x0A \<in> set message)"
proof -
  obtain ts message where ts: "log_date_time_string (clock w) = Inr ts"
    and m: "percent_format ext format args = Inr message"
    and w': "log_message ext self format args w
             = (Inr (), stdout_write (clf_line_text (address_string self) ts message) w)"
    using assms log_message_cases [of ext self format args w] by auto
  define body where "body = address_string self @ '' - - ['' @ ts @ ''] '' @ message"
  have line: "clf_line_text (address_string self) ts message = body @ [CHR 0x0A]"
    by (simp add: clf_line_text_def body_def)
  have "w' = stdout_write (body @ [CHR 0x0A]) w"
    using assms w' line by simp
  then have out: "stdout w' = stdout w @ [body @ [CHR 0x0A]]"
    by (simp add: stdout_write_def)
  have ts_nl: "CHR 0x0A \<notin> set ts" using ts by (rule log_date_time_string_no_newline)
  have body_nl: "(CHR 0x0A \<in> set body)
                 = (CHR 0x0A \<in> set (address_string self) \<or> CHR 0x0A \<in> set message)"
    unfolding body_def using ts_nl by auto
  have lines: "if CHR 0x0A \<in> set (address_string self) \<or> CHR 0x0A \<in> set message
               then 2 \<le> length (lines_of (body @ [CHR 0x0A]))
               else length (lines_of (body @ [CHR 0x0A])) = 1"
    using body_nl lines_of_more [of body] lines_of_one [of body] by auto
  have tmpl: "CHR 0x0A \<in> set format \<longrightarrow> CHR 0x0A \<in> set message"
    using percent_format_newline [OF m] by blast
  show ?thesis using m out lines tmpl by blast
qed


theorem log_message_no_sanitization_witness:
  "log_message example_extern example_handler ''%s'' [PyStr ''first\<newline>second''] example_world
   = (Inr (), example_world\<lparr>stdout :=
        [''127.0.0.1 - - [03/Nov/2026:14:00:05 +0000] first\<newline>second\<newline>'']\<rparr>)
   \<and> lines_of ''127.0.0.1 - - [03/Nov/2026:14:00:05 +0000] first\<newline>second\<newline>''
       = [''127.0.0.1 - - [03/Nov/2026:14:00:05 +0000] first'', ''second'']
   \<and> (\<exists>line message. percent_format example_extern ''%s'' [PyStr ''first\<newline>second'']
           = Inr message
         \<and> stdout (example_world\<lparr>stdout :=
               [''127.0.0.1 - - [03/Nov/2026:14:00:05 +0000] first\<newline>second\<newline>'']\<rparr>)
             = stdout example_world @ [line]
         \<and> (if CHR 0x0A \<in> set (address_string example_handler) \<or> CHR 0x0A \<in> set message
             then 2 \<le> length (lines_of line) else length (lines_of line) = 1)
         \<and> (CHR 0x0A \<in> set ''%s'' \<longrightarrow> CHR 0x0A \<in> set message))"
proof -
  have ts: "log_date_time_string (clock example_world) = Inr ''03/Nov/2026:14:00:05 +0000''"
    using example_timestamp by (simp add: example_world_def)
  have m: "percent_format example_extern ''%s'' [PyStr ''first\<newline>second'']
           = Inr ''first\<newline>second''"
    by (simp add: percent_format.simps format_arg_s)
  have h: "log_message example_extern example_handler ''%s'' [PyStr ''first\<newline>second'']
             example_world
   = (Inr (), example_world\<lparr>stdout :=
        [''127.0.0.1 - - [03/Nov/2026:14:00:05 +0000] first\<newline>second\<newline>'']\<rparr>)"
    using log_message_success [OF ts m, of example_handler]
    by (simp add: stdout_write_def clf_line_text_def address_string_def example_handler_def
        example_world_def)
  have l: "lines_of ''127.0.0.1 - - [03/Nov/2026:14:00:05 +0000] first\<newline>second\<newline>''
       = [''127.0.0.1 - - [03/Nov/2026:14:00:05 +0000] first'', ''second'']"
    by (simp add: lines_of_def)
  show ?thesis using h l log_message_no_sanitization [OF h] by blast
qed

end
